theory Spec2Isabelle
  imports Complex_Main "HOL-Library.Word" "HOL-Library.Log_Nat"
begin

section \<open>The write-rate limiter of KingDB (\<^verbatim>\<open>cache/rate_limiter.h\<close>)\<close>

text \<open>
  The class \<^verbatim>\<open>kdb::RateLimiter\<close> keeps eleven data members, all of type
  \<^verbatim>\<open>uint64_t\<close> except the sample history, a \<^verbatim>\<open>std::vector<uint64_t>\<close>.
  Unsigned 64-bit members are words of 64 bits, so that every \<^verbatim>\<open>+\<close>,
  \<^verbatim>\<open>*\<close> and \<^verbatim>\<open>/\<close> of the source is the wrapping (respectively truncating)
  operation on \<open>64 word\<close>.  The controller and the writing-rate sampler go through
  \<^verbatim>\<open>double\<close>; the first subsection models the part of IEEE-754 binary64 arithmetic
  they use.  The mutex is not modelled: every operation is taken as one sequential step.
\<close>

type_synonym u64 = "64 word"

subsection \<open>IEEE-754 binary64, as far as the limiter uses it\<close>

text \<open>
  A \<^verbatim>\<open>double\<close> is a rational (every finite binary64 value is one), an infinity
  or a NaN.  The sign of a zero is not kept: the only divisors that can be zero in the
  source are \<^verbatim>\<open>(double)rate_writing\<close> and the difference of two converted time stamps,
  which are both \<open>+0\<close> when they vanish.  Arithmetic rounds to nearest, ties to even, on
  a significand of 53 bits.  The exponent range is not bounded: every finite value the
  limiter computes is 0 or has a magnitude between \<open>2 powr -75\<close> and \<open>2 powr 75\<close>,
  far inside the normal range of binary64.
\<close>

datatype double = Finite rat | PosInf | NegInf | NaN

definition round_half_even :: "rat \<Rightarrow> int" where
  "round_half_even x =
     (let f = \<lfloor>x\<rfloor>; r = x - of_int f
      in if r < 1 / 2 then f else if 1 / 2 < r then f + 1 else if even f then f else f + 1)"

text \<open>For \<open>x > 0\<close>, \<open>binade x\<close> is an exponent \<open>e\<close> with \<open>2^e \<le> x \<le> 2^(e+1)\<close>;
  the upper bound is attained only at a power of two, which needs no rounding.\<close>

definition binade :: "rat \<Rightarrow> int" where
  "binade x = (if 1 \<le> x then bitlen \<lfloor>x\<rfloor> - 1 else - bitlen \<lfloor>1 / x\<rfloor>)"

definition round53 :: "rat \<Rightarrow> rat" where
  "round53 x =
     (if x = 0 then 0
      else let u = power_int 2 (binade \<bar>x\<bar> - 52)
           in of_int (round_half_even (x / u)) * u)"

text \<open>A decimal literal of the source denotes the nearest binary64 value.\<close>

definition dbl :: "rat \<Rightarrow> double" where
  "dbl x = Finite (round53 x)"

text \<open>\<^verbatim>\<open>(double)x\<close> for an unsigned 64-bit \<open>x\<close>.\<close>

definition u64_to_double :: "u64 \<Rightarrow> double" where
  "u64_to_double w = Finite (round53 (of_int (uint w)))"

fun double_mul :: "double \<Rightarrow> double \<Rightarrow> double" where
  "double_mul (Finite a) (Finite b) = Finite (round53 (a * b))"
| "double_mul NaN _ = NaN"
| "double_mul _ NaN = NaN"
| "double_mul (Finite a) PosInf = (if a = 0 then NaN else if 0 < a then PosInf else NegInf)"
| "double_mul (Finite a) NegInf = (if a = 0 then NaN else if 0 < a then NegInf else PosInf)"
| "double_mul PosInf (Finite b) = (if b = 0 then NaN else if 0 < b then PosInf else NegInf)"
| "double_mul NegInf (Finite b) = (if b = 0 then NaN else if 0 < b then NegInf else PosInf)"
| "double_mul PosInf PosInf = PosInf"
| "double_mul PosInf NegInf = NegInf"
| "double_mul NegInf PosInf = NegInf"
| "double_mul NegInf NegInf = PosInf"

fun double_div :: "double \<Rightarrow> double \<Rightarrow> double" where
  "double_div (Finite a) (Finite b) =
     (if b = 0 then (if a = 0 then NaN else if 0 < a then PosInf else NegInf)
      else Finite (round53 (a / b)))"
| "double_div NaN _ = NaN"
| "double_div _ NaN = NaN"
| "double_div (Finite a) PosInf = Finite 0"
| "double_div (Finite a) NegInf = Finite 0"
| "double_div PosInf (Finite b) = (if 0 \<le> b then PosInf else NegInf)"
| "double_div NegInf (Finite b) = (if 0 \<le> b then NegInf else PosInf)"
| "double_div PosInf PosInf = NaN"
| "double_div PosInf NegInf = NaN"
| "double_div NegInf PosInf = NaN"
| "double_div NegInf NegInf = NaN"

fun double_sub :: "double \<Rightarrow> double \<Rightarrow> double" where
  "double_sub (Finite a) (Finite b) = Finite (round53 (a - b))"
| "double_sub NaN _ = NaN"
| "double_sub _ NaN = NaN"
| "double_sub (Finite a) PosInf = NegInf"
| "double_sub (Finite a) NegInf = PosInf"
| "double_sub PosInf (Finite b) = PosInf"
| "double_sub NegInf (Finite b) = NegInf"
| "double_sub PosInf PosInf = NaN"
| "double_sub PosInf NegInf = PosInf"
| "double_sub NegInf PosInf = NegInf"
| "double_sub NegInf NegInf = NaN"

text \<open>\<^verbatim>\<open>a < b\<close> on doubles; every comparison with a NaN is false.  \<^verbatim>\<open>a > b\<close> is
  \<open>double_less b a\<close>.\<close>

fun double_less :: "double \<Rightarrow> double \<Rightarrow> bool" where
  "double_less (Finite a) (Finite b) = (a < b)"
| "double_less NaN _ = False"
| "double_less _ NaN = False"
| "double_less _ NegInf = False"
| "double_less PosInf _ = False"
| "double_less NegInf _ = True"
| "double_less (Finite a) PosInf = True"

text \<open>
  \<^verbatim>\<open>(uint64_t)d\<close> discards the fractional part.  When the truncated value is not a
  \<^verbatim>\<open>uint64_t\<close> (also for an infinity or a NaN) the C++ standard leaves the behaviour
  undefined; compiled code yields some 64-bit pattern that depends on the platform.  The
  model takes that pattern from a parameter \<open>oor\<close> ("out of range"), so that whatever is
  proved for all \<open>oor\<close> holds on every platform that returns a value.
\<close>

definition trunc_toward_zero :: "rat \<Rightarrow> int" where
  "trunc_toward_zero x = (if 0 \<le> x then \<lfloor>x\<rfloor> else \<lceil>x\<rceil>)"

definition double_to_u64 :: "(double \<Rightarrow> u64) \<Rightarrow> double \<Rightarrow> u64" where
  "double_to_u64 oor d =
     (case d of
        Finite x \<Rightarrow>
          (let t = trunc_toward_zero x in if 0 \<le> t \<and> t < 2 ^ 64 then word_of_int t else oor d)
      | _ \<Rightarrow> oor d)"

text \<open>One such platform behaviour, used for the concrete runs below: an out-of-range
  conversion yields 0.  The runs that name it never convert out of range.\<close>

definition oor_zero :: "double \<Rightarrow> u64" where
  "oor_zero d = 0"

text \<open>\<^verbatim>\<open>c *= k\<close> with \<open>c\<close> a \<^verbatim>\<open>uint64_t\<close> and \<open>k\<close> a \<^verbatim>\<open>double\<close>:
  \<open>c\<close> is converted to \<^verbatim>\<open>double\<close>, multiplied, and converted back.\<close>

definition mul_assign :: "(double \<Rightarrow> u64) \<Rightarrow> u64 \<Rightarrow> double \<Rightarrow> u64" where
  "mul_assign oor c k = double_to_u64 oor (double_mul (u64_to_double c) k)"

subsection \<open>The state\<close>

record rate_limiter =
  epoch_write_start :: u64
  epoch_write_end :: u64
  rate_limit :: u64
  rate_arriving :: u64
  rate_arriving_adjusted :: u64
  rate_writing :: u64
  epoch_last :: u64
  epoch_current :: u64
  duration_slept :: u64
  bytes_per_microsecond :: u64
  rates :: "u64 list"

text \<open>
  The constructor initialises seven members and leaves \<^verbatim>\<open>epoch_write_start_\<close>,
  \<^verbatim>\<open>epoch_write_end_\<close> and \<^verbatim>\<open>rate_writing_\<close> indeterminate; their contents are
  the parameters \<open>ews\<close>, \<open>ewe\<close> and \<open>rw\<close>.  The vector starts empty.
\<close>

definition RateLimiter :: "u64 \<Rightarrow> u64 \<Rightarrow> u64 \<Rightarrow> u64 \<Rightarrow> rate_limiter" where
  "RateLimiter rate_limit_arg ews ewe rw =
     \<lparr> epoch_write_start = ews,
       epoch_write_end = ewe,
       rate_limit = rate_limit_arg,
       rate_arriving = 250 * 1024 * 1024,
       rate_arriving_adjusted = 0,
       rate_writing = rw,
       epoch_last = 0,
       epoch_current = 0,
       duration_slept = 0,
       bytes_per_microsecond = 5,
       rates = [] \<rparr>"

subsection \<open>The writing-rate estimator\<close>

definition StoreWritingRate :: "u64 \<Rightarrow> rate_limiter \<Rightarrow> rate_limiter" where
  "StoreWritingRate rate s =
     (let s1 = (if 10 \<le> length (rates s) then s\<lparr>rates := tl (rates s)\<rparr> else s)
      in s1\<lparr>rates := rates s1 @ [rate]\<rparr>)"

definition GetWritingRate :: "rate_limiter \<Rightarrow> u64" where
  "GetWritingRate s =
     (if length (rates s) = 0 then 1 * 1024 * 1024
      else
        let sum = foldl (+) 0 (rates s);
            rate_limit_current = sum div of_nat (length (rates s))
        in if 0 < rate_limit s \<and> rate_limit s < rate_limit_current
           then rate_limit s
           else rate_limit_current)"

text \<open>\<open>now_ms\<close> is the reading of the system clock in milliseconds.\<close>

definition WriteStart :: "u64 \<Rightarrow> rate_limiter \<Rightarrow> rate_limiter" where
  "WriteStart now_ms s = s\<lparr>epoch_write_start := now_ms\<rparr>"

definition write_rate_sample :: "(double \<Rightarrow> u64) \<Rightarrow> u64 \<Rightarrow> u64 \<Rightarrow> u64 \<Rightarrow> u64" where
  "write_rate_sample oor start end num_bytes_written =
     (if start = end then num_bytes_written
      else
        let duration = double_div (double_sub (u64_to_double end) (u64_to_double start))
                                  (Finite 1000)
        in double_to_u64 oor (double_div (u64_to_double num_bytes_written) duration))"

definition WriteEnd :: "(double \<Rightarrow> u64) \<Rightarrow> u64 \<Rightarrow> u64 \<Rightarrow> rate_limiter \<Rightarrow> rate_limiter" where
  "WriteEnd oor now_ms num_bytes_written s =
     (let s1 = s\<lparr>epoch_write_end := now_ms\<rparr>;
          rate = write_rate_sample oor (epoch_write_start s1) (epoch_write_end s1)
                   num_bytes_written
      in StoreWritingRate rate s1)"

subsection \<open>Tick: epoch rollover, controller and sleep gate\<close>

text \<open>The factor the controller picks (lines 44--68 of the source): the branch is
  chosen by the integer comparison, the band by comparing the double quotient with the
  literals.\<close>

definition band_factor :: "u64 \<Rightarrow> u64 \<Rightarrow> double" where
  "band_factor arriving_adjusted writing =
     (let ratio = double_div (u64_to_double arriving_adjusted) (u64_to_double writing)
      in if writing < arriving_adjusted then
           (if double_less (dbl (3 / 2)) ratio then dbl (75 / 100)
            else if double_less (dbl (110 / 100)) ratio then dbl (95 / 100)
            else if double_less (dbl (105 / 100)) ratio then dbl (99 / 100)
            else dbl (995 / 1000))
         else
           (if double_less ratio (dbl (5 / 10)) then dbl (125 / 100)
            else if double_less ratio (dbl (90 / 100)) then dbl (105 / 100)
            else if double_less ratio (dbl (95 / 100)) then dbl (101 / 100)
            else dbl (1005 / 1000)))"

text \<open>\<^verbatim>\<open>if (bytes_per_microsecond_ <= 5) bytes_per_microsecond_ += 1;\<close>\<close>

definition bump :: "u64 \<Rightarrow> u64" where
  "bump c = (if c \<le> 5 then c + 1 else c)"

text \<open>\<^verbatim>\<open>rate_arriving_ + bytes_per_microsecond_ * duration_slept_\<close> (line 35).\<close>

definition adjusted_arrival :: "rate_limiter \<Rightarrow> u64" where
  "adjusted_arrival s = rate_arriving s + bytes_per_microsecond s * duration_slept s"

text \<open>The body of \<^verbatim>\<open>if (epoch_current_ != epoch_last_)\<close>.\<close>

definition rollover :: "(double \<Rightarrow> u64) \<Rightarrow> rate_limiter \<Rightarrow> rate_limiter" where
  "rollover oor s =
     (let s1 = s\<lparr>rate_arriving_adjusted := adjusted_arrival s\<rparr>;
          s2 = s1\<lparr>duration_slept := 0, rate_arriving := 0, epoch_last := epoch_current s1\<rparr>;
          writing = GetWritingRate s2;
          k = band_factor (rate_arriving_adjusted s2) writing
      in s2\<lparr>bytes_per_microsecond := bump (mul_assign oor (bytes_per_microsecond s2) k)\<rparr>)"

text \<open>
  \<open>Tick oor now bytes_arriving s\<close> returns the new state and the number of microseconds
  the caller was put to sleep (0 when \<^verbatim>\<open>sleep_for\<close> is not called).  \<open>now\<close> is the
  value of \<^verbatim>\<open>std::time(0)\<close>.
\<close>

definition sleep_microseconds :: "u64 \<Rightarrow> u64 \<Rightarrow> u64" where
  "sleep_microseconds c bytes_arriving =
     (let sl = (if 0 < c then bytes_arriving div c else 0)
      in if 50000 < sl then 50000 else sl)"

definition Tick :: "(double \<Rightarrow> u64) \<Rightarrow> u64 \<Rightarrow> u64 \<Rightarrow> rate_limiter \<Rightarrow> rate_limiter \<times> u64" where
  "Tick oor now bytes_arriving s =
     (let s1 = s\<lparr>epoch_current := now\<rparr>;
          s2 = (if epoch_current s1 \<noteq> epoch_last s1 then rollover oor s1 else s1);
          s3 = s2\<lparr>rate_arriving := rate_arriving s2 + bytes_arriving\<rparr>;
          sl = sleep_microseconds (bytes_per_microsecond s3) bytes_arriving
      in if sl \<noteq> 0 then (s3\<lparr>duration_slept := duration_slept s3 + sl\<rparr>, sl) else (s3, 0))"

subsection \<open>Reachable states\<close>

inductive reachable :: "rate_limiter \<Rightarrow> bool" where
  r_init: "reachable (RateLimiter rl ews ewe rw)"
| r_tick: "reachable s \<Longrightarrow> reachable (fst (Tick oor now n s))"
| r_write_start: "reachable s \<Longrightarrow> reachable (WriteStart now_ms s)"
| r_write_end: "reachable s \<Longrightarrow> reachable (WriteEnd oor now_ms n s)"
| r_store: "reachable s \<Longrightarrow> reachable (StoreWritingRate r s)"

text \<open>A run of \<^verbatim>\<open>Tick\<close> calls, each given as the clock reading and the byte count.\<close>

fun run_ticks :: "(double \<Rightarrow> u64) \<Rightarrow> (u64 \<times> u64) list \<Rightarrow> rate_limiter \<Rightarrow> rate_limiter" where
  "run_ticks oor [] s = s"
| "run_ticks oor ((now, n) # evs) s = run_ticks oor evs (fst (Tick oor now n s))"

text \<open>Storing a list of samples, first to last.\<close>

fun store_all :: "u64 list \<Rightarrow> rate_limiter \<Rightarrow> rate_limiter" where
  "store_all [] s = s"
| "store_all (r # rs) s = store_all rs (StoreWritingRate r s)"


subsection \<open>The writing-rate sample as claim C7 words it\<close>

text \<open>
  The sample of the claim in exact arithmetic: the byte count itself when the time stamps
  are equal, else the byte count divided by the elapsed seconds, truncated.  This
  definition follows the words of the claim, not the source.
\<close>

definition claimed_write_sample :: "int \<Rightarrow> int \<Rightarrow> int \<Rightarrow> int" where
  "claimed_write_sample start end bytes_written =
     (if start = end then bytes_written
      else \<lfloor>of_int bytes_written / ((of_int end - of_int start) / 1000 :: rat)\<rfloor>)"

subsection \<open>The controller as claim C4 words it\<close>

text \<open>
  The band table of the claim, read on the exact ratio with the exact decimal factors,
  and the coefficient it yields: the floor of the exact product, plus 1 if that is at
  most 5.  These two definitions follow the words of the claim, not the source; they are
  what the source is compared with.
\<close>

definition claimed_band_factor :: "rat \<Rightarrow> rat" where
  "claimed_band_factor ratio =
     (if 150 / 100 < ratio then 75 / 100
      else if 110 / 100 < ratio then 95 / 100
      else if 105 / 100 < ratio then 99 / 100
      else if 1 < ratio then 995 / 1000
      else if ratio < 50 / 100 then 125 / 100
      else if ratio < 90 / 100 then 105 / 100
      else if ratio < 95 / 100 then 101 / 100
      else 1005 / 1000)"

definition claimed_coefficient :: "int \<Rightarrow> rat \<Rightarrow> int" where
  "claimed_coefficient c ratio =
     (let p = \<lfloor>of_int c * claimed_band_factor ratio\<rfloor> in if p \<le> 5 then p + 1 else p)"

subsection \<open>Concrete runs\<close>

text \<open>A limiter without ceiling, the indeterminate members read as 0.\<close>

definition fresh :: rate_limiter where
  "fresh = RateLimiter 0 0 0 0"

text \<open>One physical write of 0 bytes, bracketed within the same millisecond.\<close>

definition after_empty_write :: rate_limiter where
  "after_empty_write = WriteEnd oor_zero 7 0 (WriteStart 7 fresh)"

text \<open>Two writes of \<open>2^63\<close> bytes each, both bracketed within one millisecond.\<close>

definition after_two_huge_writes :: rate_limiter where
  "after_two_huge_writes =
     WriteEnd oor_zero 7 9223372036854775808
       (WriteStart 7 (WriteEnd oor_zero 7 9223372036854775808 (WriteStart 7 fresh)))"

text \<open>Five calls one second apart: the first rollover (250 MiB preloaded) takes the
  coefficient to 4, three idle epochs raise it to 6, 7, 8, the next one to 10; the last
  call offers 10,000,000 bytes and sleeps 50,000 microseconds.\<close>

definition after_ramp_up :: rate_limiter where
  "after_ramp_up = run_ticks oor_zero [(1, 0), (2, 0), (3, 0), (4, 0), (5, 10000000)] fresh"

text \<open>Twenty-one calls one second apart that take the coefficient to 200: sixteen idle
  epochs (factor 1.25), one epoch with ratio 0.57 (factor 1.05), one with ratio 0.92
  (factor 1.01), two idle epochs, and a last call that offers 500,000 bytes, so that the
  next rollover sees the adjusted arrival rate 1,000,000 against the default writing
  rate 1,048,576 (ratio 0.95).\<close>

definition at_200 :: rate_limiter where
  "at_200 = run_ticks oor_zero
     [(1, 0), (2, 0), (3, 0), (4, 0), (5, 0), (6, 0), (7, 0), (8, 0), (9, 0), (10, 0),
      (11, 0), (12, 0), (13, 0), (14, 0), (15, 0), (16, 0), (17, 300000), (18, 480000),
      (19, 0), (20, 0), (21, 500000)] fresh"

text \<open>A fresh limiter whose history holds the single sample 163,840,000: the first
  rollover sees the ratio 262,144,000 / 163,840,000 = 1.6 at coefficient 5.\<close>

definition ratio_1_6 :: rate_limiter where
  "ratio_1_6 = StoreWritingRate 163840000 fresh"

text \<open>Two bracketed writes on a fresh limiter: 17 bytes in 17 ms, and 1,000,000
  bytes in 500 ms.\<close>

definition write_17_bytes_in_17_ms :: rate_limiter where
  "write_17_bytes_in_17_ms = WriteEnd oor_zero 1017 17 (WriteStart 1000 fresh)"

definition write_1000000_bytes_in_500_ms :: rate_limiter where
  "write_1000000_bytes_in_500_ms = WriteEnd oor_zero 1500 1000000 (WriteStart 1000 fresh)"

section \<open>Facts about the rounding\<close>

lemma round_half_even_err: "\<bar>of_int (round_half_even x) - x\<bar> \<le> 1 / 2"
proof -
  have "of_int \<lfloor>x\<rfloor> \<le> x" "x < of_int \<lfloor>x\<rfloor> + 1" by linarith+
  then show ?thesis
    by (auto simp: round_half_even_def Let_def)
qed

lemma round_half_even_of_int [simp]: "round_half_even (of_int n) = n"
  by (simp add: round_half_even_def)

lemma round_half_even_nonneg: "0 \<le> x \<Longrightarrow> 0 \<le> round_half_even x"
  by (auto simp: round_half_even_def Let_def)

lemma binade_lower:
  assumes "0 < x"
  shows "power_int 2 (binade x) \<le> x"
proof (cases "1 \<le> x")
  case True
  then have n: "0 < \<lfloor>x\<rfloor>" by simp
  from bitlen_bounds [OF n] have "2 ^ nat (bitlen \<lfloor>x\<rfloor> - 1) \<le> \<lfloor>x\<rfloor>" by simp
  then have "(of_int (2 ^ nat (bitlen \<lfloor>x\<rfloor> - 1)) :: rat) \<le> of_int \<lfloor>x\<rfloor>"
    by (simp only: of_int_le_iff)
  also have "\<dots> \<le> x" by simp
  finally have "(2 :: rat) ^ nat (bitlen \<lfloor>x\<rfloor> - 1) \<le> x" by simp
  moreover have "0 \<le> bitlen \<lfloor>x\<rfloor> - 1"
    using n by (simp add: bitlen_alt_def)
  ultimately show ?thesis
    using True by (simp add: binade_def power_int_def)
next
  case False
  with assms have x1: "x < 1" by simp
  then have inv: "1 < 1 / x" using assms by simp
  then have n: "0 < \<lfloor>1 / x\<rfloor>" by simp
  let ?k = "nat (bitlen \<lfloor>1 / x\<rfloor>)"
  from bitlen_bounds [OF n] have "\<lfloor>1 / x\<rfloor> < 2 ^ ?k" by simp
  then have "\<lfloor>1 / x\<rfloor> + 1 \<le> 2 ^ ?k" by simp
  then have "(of_int (\<lfloor>1 / x\<rfloor> + 1) :: rat) \<le> of_int (2 ^ ?k)"
    by (simp only: of_int_le_iff)
  moreover have "1 / x < of_int (\<lfloor>1 / x\<rfloor> + 1)" by linarith
  ultimately have "1 / x < 2 ^ ?k" by simp
  then have "1 / 2 ^ ?k < x"
    using assms by (simp add: field_simps)
  moreover have "1 \<le> bitlen \<lfloor>1 / x\<rfloor>"
    using n by (simp add: bitlen_alt_def)
  ultimately show ?thesis
    using False by (simp add: binade_def power_int_def field_simps)
qed

lemma binade_upper:
  assumes "0 < x"
  shows "x \<le> power_int 2 (binade x + 1)"
proof (cases "1 \<le> x")
  case True
  then have n: "0 < \<lfloor>x\<rfloor>" by simp
  let ?k = "nat (bitlen \<lfloor>x\<rfloor>)"
  from bitlen_bounds [OF n] have "\<lfloor>x\<rfloor> < 2 ^ ?k" by simp
  then have "\<lfloor>x\<rfloor> + 1 \<le> 2 ^ ?k" by simp
  then have "(of_int (\<lfloor>x\<rfloor> + 1) :: rat) \<le> of_int (2 ^ ?k)"
    by (simp only: of_int_le_iff)
  moreover have "x < of_int (\<lfloor>x\<rfloor> + 1)" by linarith
  ultimately have "x \<le> 2 ^ ?k" by simp
  moreover have "0 \<le> bitlen \<lfloor>x\<rfloor>" by (rule bitlen_nonneg)
  ultimately show ?thesis
    using True by (simp add: binade_def power_int_def)
next
  case False
  with assms have x1: "x < 1" by simp
  then have inv: "1 < 1 / x" using assms by simp
  then have n: "0 < \<lfloor>1 / x\<rfloor>" by simp
  let ?k = "nat (bitlen \<lfloor>1 / x\<rfloor> - 1)"
  from bitlen_bounds [OF n] have "2 ^ ?k \<le> \<lfloor>1 / x\<rfloor>" by simp
  then have "(of_int (2 ^ ?k) :: rat) \<le> of_int \<lfloor>1 / x\<rfloor>"
    by (simp only: of_int_le_iff)
  also have "\<dots> \<le> 1 / x" by simp
  finally have "(2 :: rat) ^ ?k \<le> 1 / x" by simp
  then have "x \<le> 1 / 2 ^ ?k"
    using assms by (simp add: field_simps)
  moreover have "1 \<le> bitlen \<lfloor>1 / x\<rfloor>"
    using n by (simp add: bitlen_alt_def)
  ultimately show ?thesis
    using False by (simp add: binade_def power_int_def field_simps)
qed

lemma round53_err_abs:
  assumes "x \<noteq> 0"
  shows "\<bar>round53 x - x\<bar> \<le> power_int 2 (binade \<bar>x\<bar> - 53)"
proof -
  let ?u = "power_int (2 :: rat) (binade \<bar>x\<bar> - 52)"
  have u: "0 < ?u" by simp
  have r: "round53 x = of_int (round_half_even (x / ?u)) * ?u"
    using assms by (simp add: round53_def Let_def)
  have "round53 x - x = (of_int (round_half_even (x / ?u)) - x / ?u) * ?u"
    unfolding r using u by (simp add: algebra_simps)
  then have "\<bar>round53 x - x\<bar> = \<bar>of_int (round_half_even (x / ?u)) - x / ?u\<bar> * ?u"
    using u by (simp add: abs_mult)
  also have "\<dots> \<le> (1 / 2) * ?u"
    using round_half_even_err [of "x / ?u"] u by (intro mult_right_mono) simp_all
  also have "\<dots> = power_int 2 (binade \<bar>x\<bar> - 53)"
  proof -
    have "power_int (2 :: rat) (binade \<bar>x\<bar> - 52) = power_int 2 ((binade \<bar>x\<bar> - 53) + 1)"
      by simp
    also have "\<dots> = power_int 2 (binade \<bar>x\<bar> - 53) * 2"
      by (subst power_int_add) simp_all
    finally show ?thesis by simp
  qed
  finally show ?thesis .
qed

lemma round53_rel_err: "\<bar>round53 x - x\<bar> \<le> \<bar>x\<bar> / 2 ^ 53"
proof (cases "x = 0")
  case True
  then show ?thesis by (simp add: round53_def)
next
  case False
  then have pos: "0 < \<bar>x\<bar>" by simp
  have "power_int (2 :: rat) (binade \<bar>x\<bar> - 53) = power_int 2 (binade \<bar>x\<bar>) / 2 ^ 53"
    by (simp add: power_int_diff)
  also have "\<dots> \<le> \<bar>x\<bar> / 2 ^ 53"
    using binade_lower [OF pos] by (simp add: divide_right_mono)
  finally show ?thesis
    using round53_err_abs [OF False] by linarith
qed

lemma round53_nonneg: "0 \<le> x \<Longrightarrow> 0 \<le> round53 x"
  by (auto simp: round53_def Let_def intro!: mult_nonneg_nonneg round_half_even_nonneg)

lemma round53_exact:
  assumes x: "x = of_int m * power_int 2 e" and m: "\<bar>m\<bar> < 2 ^ 53"
  shows "round53 x = x"
proof (cases "x = 0")
  case True
  then show ?thesis by (simp add: round53_def)
next
  case False
  then have pos: "0 < \<bar>x\<bar>" by simp
  let ?b = "binade \<bar>x\<bar>"
  let ?u = "power_int (2 :: rat) (?b - 52)"
  have "\<bar>x\<bar> = of_int \<bar>m\<bar> * power_int 2 e"
    unfolding x by (simp add: abs_mult)
  also have "\<dots> < 2 ^ 53 * power_int 2 e"
  proof -
    have "(of_int \<bar>m\<bar> :: rat) < of_int (2 ^ 53)" using m by (simp only: of_int_less_iff)
    then show ?thesis by (intro mult_strict_right_mono) simp_all
  qed
  also have "\<dots> = power_int 2 (53 + e)"
    by (subst power_int_add) simp_all
  finally have lt: "\<bar>x\<bar> < power_int 2 (53 + e)" .
  have "?b < 53 + e"
  proof (rule ccontr)
    assume "\<not> ?b < 53 + e"
    then have "power_int (2 :: rat) (53 + e) \<le> power_int 2 ?b"
      by (intro power_int_increasing) simp_all
    with binade_lower [OF pos] lt show False by linarith
  qed
  then have d: "0 \<le> e - ?b + 52" by simp
  have "x / ?u = of_int m * (power_int 2 e / ?u)" unfolding x by simp
  also have "power_int 2 e / ?u = power_int (2 :: rat) (e - (?b - 52))"
    by (simp add: power_int_diff)
  also have "\<dots> = 2 ^ nat (e - ?b + 52)"
    using d by (simp add: power_int_nonneg_exp algebra_simps)
  finally have q: "x / ?u = of_int (m * 2 ^ nat (e - ?b + 52))" by simp
  have "round53 x = of_int (round_half_even (x / ?u)) * ?u"
    using False by (simp add: round53_def Let_def)
  also have "\<dots> = (x / ?u) * ?u"
    unfolding q by (simp only: round_half_even_of_int)
  also have "\<dots> = x" by simp
  finally show ?thesis .
qed

lemma round53_of_int: "\<bar>m\<bar> < 2 ^ 53 \<Longrightarrow> round53 (of_int m) = of_int m"
  using round53_exact [of "of_int m" m 0] by simp

lemma scale_down_lt:
  assumes x: "1 \<le> x" and k0: "0 \<le> k" and k1: "k \<le> 996 / 1000"
  shows "0 \<le> round53 (round53 x * k) \<and> round53 (round53 x * k) < x"
proof -
  define e :: rat where "e = 1 / 2 ^ 53"
  let ?a = "round53 x"
  let ?p = "round53 (?a * k)"
  have a0: "0 \<le> ?a" using x by (intro round53_nonneg) simp
  have "?a - x \<le> \<bar>x\<bar> / 2 ^ 53" using round53_rel_err [of x] by linarith
  then have a1: "?a \<le> x * (1 + e)" using x by (simp add: e_def algebra_simps)
  have y0: "0 \<le> ?a * k" using a0 k0 by simp
  then have p0: "0 \<le> ?p" by (rule round53_nonneg)
  have "?p - ?a * k \<le> \<bar>?a * k\<bar> / 2 ^ 53" using round53_rel_err [of "?a * k"] by linarith
  then have p1: "?p \<le> (?a * k) * (1 + e)" using y0 by (simp add: e_def algebra_simps)
  have "?a * k \<le> ?a * (996 / 1000)" using a0 k1 by (rule mult_left_mono [rotated])
  also have "\<dots> \<le> (x * (1 + e)) * (996 / 1000)" using a1 by (rule mult_right_mono) simp
  finally have y1: "?a * k \<le> (x * (1 + e)) * (996 / 1000)" .
  have "(?a * k) * (1 + e) \<le> ((x * (1 + e)) * (996 / 1000)) * (1 + e)"
    using y1 by (rule mult_right_mono) (simp add: e_def)
  with p1 have "?p \<le> ((x * (1 + e)) * (996 / 1000)) * (1 + e)" by linarith
  also have "\<dots> = x * ((1 + e) * (996 / 1000) * (1 + e))" by (simp only: mult.assoc)
  also have "\<dots> < x * 1"
    using x by (intro mult_strict_left_mono) (simp_all add: e_def)
  finally show ?thesis using p0 by simp
qed

lemma mul_assign_lt:
  assumes c: "1 \<le> c" and k0: "0 \<le> k" and k1: "k \<le> 996 / 1000"
  shows "mul_assign oor c (Finite k) < c"
proof -
  let ?x = "of_int (uint c) :: rat"
  let ?p = "round53 (round53 ?x * k)"
  have "1 \<le> uint c" using c by (simp add: word_le_def)
  then have "(of_int 1 :: rat) \<le> of_int (uint c)" by (simp only: of_int_le_iff)
  then have x: "1 \<le> ?x" by (simp only: of_int_1)
  from scale_down_lt [OF x k0 k1] have p: "0 \<le> ?p" "?p < ?x" by simp_all
  then have f: "0 \<le> \<lfloor>?p\<rfloor>" "\<lfloor>?p\<rfloor> < uint c" by (simp_all add: floor_less_iff)
  have "uint c < 2 ^ 64" using uint_bounded [of c] by simp
  with f have r: "\<lfloor>?p\<rfloor> < 2 ^ 64" by linarith
  have "mul_assign oor c (Finite k) = word_of_int \<lfloor>?p\<rfloor>"
    using p f r by (simp add: mul_assign_def u64_to_double_def double_to_u64_def trunc_toward_zero_def Let_def)
  moreover have "uint (word_of_int \<lfloor>?p\<rfloor> :: u64) = \<lfloor>?p\<rfloor>"
    using f r by (simp add: uint_word_of_int)
  ultimately show ?thesis using f by (simp add: word_less_def)
qed

lemma dbl_literals:
  "dbl (3 / 4) = Finite (3 / 4)"
  "dbl (19 / 20) = Finite (4278419646001971 / 4503599627370496)"
  "dbl (99 / 100) = Finite (4458563631096791 / 4503599627370496)"
  "dbl (199 / 200) = Finite (8962163258467287 / 9007199254740992)"
  "dbl (5 / 4) = Finite (5 / 4)"
  "dbl (21 / 20) = Finite (4728779608739021 / 4503599627370496)"
  "dbl (101 / 100) = Finite (4548635623644201 / 4503599627370496)"
  "dbl (201 / 200) = Finite (1131529406376837 / 1125899906842624)"
  by code_simp+

lemma dbl_thresholds:
  "dbl (3 / 2) = Finite (3 / 2)"
  "dbl (11 / 10) = Finite (2476979795053773 / 2251799813685248)"
  "dbl (1 / 2) = Finite (1 / 2)"
  "dbl (9 / 10) = Finite (8106479329266893 / 9007199254740992)"
  by code_simp+

subsection \<open>Comparisons and products against exact arithmetic\<close>

lemma quotient_gap:
  fixes a w p q :: int
  assumes w: "0 < w" and q: "0 < q"
    and ne: "(of_int a / of_int w :: rat) \<noteq> of_int p / of_int q"
  shows "1 / (of_int w * of_int q) \<le> \<bar>of_int a / of_int w - of_int p / of_int q :: rat\<bar>"
proof -
  have wq: "(0 :: rat) < of_int w * of_int q" using w q by simp
  have d: "(of_int a / of_int w - of_int p / of_int q :: rat) =
           of_int (a * q - p * w) / (of_int w * of_int q)"
    using w q by (simp add: field_simps)
  have "a * q - p * w \<noteq> 0"
  proof
    assume "a * q - p * w = 0"
    then have "(of_int a / of_int w - of_int p / of_int q :: rat) = 0" unfolding d by simp
    with ne show False by simp
  qed
  then have "1 \<le> \<bar>a * q - p * w\<bar>" by simp
  then have "(of_int 1 :: rat) \<le> of_int \<bar>a * q - p * w\<bar>" by (simp only: of_int_le_iff)
  then have "(1 :: rat) \<le> \<bar>of_int (a * q - p * w)\<bar>" by simp
  then have "1 / (of_int w * of_int q) \<le> \<bar>of_int (a * q - p * w) :: rat\<bar> / (of_int w * of_int q)"
    using wq by (intro divide_right_mono) simp_all
  also have "\<dots> = \<bar>of_int (a * q - p * w) / (of_int w * of_int q) :: rat\<bar>"
    using wq by (rule abs_div_pos)
  finally show ?thesis unfolding d .
qed

lemma round53_separated:
  assumes x: "0 \<le> x" and y: "y \<le> 2" and sep: "x + 1 / 2 ^ 45 \<le> y"
  shows "round53 x < round53 y"
proof -
  have a: "\<bar>round53 x - x\<bar> \<le> \<bar>x\<bar> / 9007199254740992"
    using round53_rel_err [of x] by simp
  have b: "\<bar>round53 y - y\<bar> \<le> \<bar>y\<bar> / 9007199254740992"
    using round53_rel_err [of y] by simp
  have s: "x + 1 / 35184372088832 \<le> y" using sep by simp
  from a b s x y show ?thesis by linarith
qed

lemma round53_separated_above:
  assumes x: "0 \<le> x" and x2: "x \<le> 2" and sep: "x + 1 / 2 ^ 45 \<le> y"
  shows "round53 x < round53 y"
proof -
  have a: "\<bar>round53 x - x\<bar> \<le> \<bar>x\<bar> / 9007199254740992"
    using round53_rel_err [of x] by simp
  have b: "\<bar>round53 y - y\<bar> \<le> \<bar>y\<bar> / 9007199254740992"
    using round53_rel_err [of y] by simp
  have s: "x + 1 / 35184372088832 \<le> y" using sep by simp
  from a b s x x2 show ?thesis by linarith
qed

lemma round53_compare:
  fixes a w p q :: int
  assumes a: "0 \<le> a" and w: "0 < w" "w < 2 ^ 40"
    and p: "0 < p" "2 * p \<le> 3 * q" and q: "0 < q" "q \<le> 20"
  shows "(round53 (of_int p / of_int q) < round53 (of_int a / of_int w)) =
           ((of_int p / of_int q :: rat) < of_int a / of_int w)"
    and "(round53 (of_int a / of_int w) < round53 (of_int p / of_int q)) =
           ((of_int a / of_int w :: rat) < of_int p / of_int q)"
proof -
  let ?r = "of_int a / of_int w :: rat" and ?t = "of_int p / of_int q :: rat"
  have W: "(0 :: rat) < of_int w" "(0 :: rat) < of_int q" using w q by simp_all
  have r0: "0 \<le> ?r" using a w by simp
  have t0: "0 \<le> ?t" using p q by simp
  have "(of_int (2 * p) :: rat) \<le> of_int (3 * q)" using p by (simp only: of_int_le_iff)
  then have t2: "?t \<le> 2" using W by (simp add: field_simps)
  have "w * q \<le> 2 ^ 40 * 20" using w q by (intro mult_mono) simp_all
  then have "w * q \<le> 2 ^ 45" by simp
  then have "(of_int (w * q) :: rat) \<le> of_int (2 ^ 45)" by (simp only: of_int_le_iff)
  then have "(of_int w * of_int q :: rat) \<le> 2 ^ 45" by simp
  then have g: "1 / 2 ^ 45 \<le> 1 / (of_int w * of_int q :: rat)"
    using W by (intro divide_left_mono) simp_all
  consider (eq) "?r = ?t" | (less) "?r < ?t" | (greater) "?t < ?r" by linarith
  then have "((round53 ?t < round53 ?r) = (?t < ?r)) \<and> ((round53 ?r < round53 ?t) = (?r < ?t))"
  proof cases
    case eq
    then show ?thesis by simp
  next
    case less
    then have "?r \<noteq> ?t" by simp
    from quotient_gap [OF w(1) q(1) this] g less have "?r + 1 / 2 ^ 45 \<le> ?t" by linarith
    from round53_separated [OF r0 t2 this] less show ?thesis by simp
  next
    case greater
    then have "?r \<noteq> ?t" by simp
    from quotient_gap [OF w(1) q(1) this] g greater have "?t + 1 / 2 ^ 45 \<le> ?r" by linarith
    from round53_separated_above [OF t0 t2 this] greater show ?thesis by simp
  qed
  then show "(round53 ?t < round53 ?r) = (?t < ?r)" and "(round53 ?r < round53 ?t) = (?r < ?t)"
    by simp_all
qed

lemma u64_to_double_exact:
  assumes "uint a < 2 ^ 53"
  shows "u64_to_double a = Finite (of_int (uint a))"
proof -
  have "\<bar>uint a\<bar> < 2 ^ 53" using assms by simp
  from round53_of_int [OF this] show ?thesis by (simp only: u64_to_double_def)
qed

lemma band_select:
  fixes r :: rat
  shows "(if 1 < r
          then (if 3 / 2 < r then x1 else if 11 / 10 < r then x2
                else if 21 / 20 < r then x3 else x4)
          else (if r < 1 / 2 then y1 else if r < 9 / 10 then y2
                else if r < 19 / 20 then y3 else y4)) =
         (if 3 / 2 < r then x1 else if 11 / 10 < r then x2 else if 21 / 20 < r then x3
          else if 1 < r then x4 else if r < 1 / 2 then y1 else if r < 9 / 10 then y2
          else if r < 19 / 20 then y3 else y4)"
  by auto

lemma decimal_literals:
  "(150 / 100 :: rat) = 3 / 2" "(110 / 100 :: rat) = 11 / 10" "(105 / 100 :: rat) = 21 / 20"
  "(50 / 100 :: rat) = 1 / 2" "(5 / 10 :: rat) = 1 / 2" "(90 / 100 :: rat) = 9 / 10"
  "(95 / 100 :: rat) = 19 / 20" "(75 / 100 :: rat) = 3 / 4"
  "(995 / 1000 :: rat) = 199 / 200" "(125 / 100 :: rat) = 5 / 4"
  "(1005 / 1000 :: rat) = 201 / 200"
  by simp_all

lemma band_factor_exact:
  assumes w: "0 < uint w" "uint w < 2 ^ 40" and a: "uint a < 2 ^ 40"
  shows "band_factor a w = dbl (claimed_band_factor (of_int (uint a) / of_int (uint w)))"
proof -
  let ?A = "of_int (uint a) :: rat" and ?W = "of_int (uint w) :: rat"
  define r where "r = ?A / ?W"
  have "uint a < 2 ^ 53" "uint w < 2 ^ 53" using a w by simp_all
  then have ca: "u64_to_double a = Finite ?A" and cw: "u64_to_double w = Finite ?W"
    by (simp_all only: u64_to_double_exact)
  have W0: "0 < ?W" using w by (simp only: of_int_0_less_iff)
  then have Wne: "?W \<noteq> 0" by simp
  have ratio: "double_div (u64_to_double a) (u64_to_double w) = Finite (round53 r)"
    unfolding ca cw r_def using Wne by simp
  have ov: "(w < a) = (1 < r)"
  proof -
    have "(w < a) = (uint w < uint a)" by (simp add: word_less_def)
    also have "\<dots> = (?W < ?A)" by (simp only: of_int_less_iff)
    also have "\<dots> = (1 < r)" unfolding r_def using W0 by (simp add: field_simps)
    finally show ?thesis .
  qed
  note cmp = round53_compare [OF uint_ge_0 [of a] w, folded r_def]
  have c32: "double_less (dbl (3 / 2)) (Finite (round53 r)) = (3 / 2 < r)"
    using cmp(1) [of 3 2] by (simp add: dbl_def)
  have c1110: "double_less (dbl (11 / 10)) (Finite (round53 r)) = (11 / 10 < r)"
    using cmp(1) [of 11 10] by (simp add: dbl_def)
  have c2120: "double_less (dbl (21 / 20)) (Finite (round53 r)) = (21 / 20 < r)"
    using cmp(1) [of 21 20] by (simp add: dbl_def)
  have c12: "double_less (Finite (round53 r)) (dbl (1 / 2)) = (r < 1 / 2)"
    using cmp(2) [of 1 2] by (simp add: dbl_def)
  have c910: "double_less (Finite (round53 r)) (dbl (9 / 10)) = (r < 9 / 10)"
    using cmp(2) [of 9 10] by (simp add: dbl_def)
  have c1920: "double_less (Finite (round53 r)) (dbl (19 / 20)) = (r < 19 / 20)"
    using cmp(2) [of 19 20] by (simp add: dbl_def)
  have "band_factor a w =
      (if 1 < r
       then (if 3 / 2 < r then dbl (3 / 4) else if 11 / 10 < r then dbl (19 / 20)
             else if 21 / 20 < r then dbl (99 / 100) else dbl (199 / 200))
       else (if r < 1 / 2 then dbl (5 / 4) else if r < 9 / 10 then dbl (21 / 20)
             else if r < 19 / 20 then dbl (101 / 100) else dbl (201 / 200)))"
    unfolding band_factor_def Let_def ratio ov decimal_literals
    by (simp only: c32 c1110 c2120 c12 c910 c1920)
  also have "\<dots> = dbl (claimed_band_factor r)"
    unfolding claimed_band_factor_def decimal_literals band_select
    by (simp only: if_distrib [of dbl])
  finally show ?thesis unfolding r_def .
qed

lemma rat_uint_nonneg: "0 \<le> (of_int (uint (c :: u64)) :: rat)"
  using uint_ge_0 [of c] by (simp only: of_int_0_le_iff)

lemma double_to_u64_floor:
  assumes "0 \<le> p" "\<lfloor>p\<rfloor> < 2 ^ 64"
  shows "uint (double_to_u64 oor (Finite p)) = \<lfloor>p\<rfloor>"
proof -
  have f0: "0 \<le> \<lfloor>p\<rfloor>" using assms(1) by simp
  with assms have "double_to_u64 oor (Finite p) = word_of_int \<lfloor>p\<rfloor>"
    by (simp add: double_to_u64_def trunc_toward_zero_def Let_def)
  moreover have "uint (word_of_int \<lfloor>p\<rfloor> :: u64) = \<lfloor>p\<rfloor>"
    using f0 assms(2) by (simp add: uint_word_of_int)
  ultimately show ?thesis by simp
qed

lemma mul_assign_near_exact:
  fixes K :: int
  assumes c: "uint c < 2 ^ 40" and K: "0 < K" "K \<le> 250"
  shows "uint (mul_assign oor c (dbl (of_int K / 200))) = (uint c * K) div 200 \<or>
         ((uint c * K) mod 200 = 0 \<and>
          uint (mul_assign oor c (dbl (of_int K / 200))) = (uint c * K) div 200 - 1)"
proof -
  let ?C = "of_int (uint c) :: rat"
  let ?k = "of_int K / 200 :: rat"
  let ?kd = "round53 ?k"
  let ?p = "round53 (?C * ?kd)"
  let ?Y = "uint c * K"
  let ?F = "?Y div 200" and ?R = "?Y mod 200"
  have C0: "0 \<le> ?C" by (rule rat_uint_nonneg)
  have "(of_int (uint c) :: rat) < of_int (2 ^ 40)" using c by (simp only: of_int_less_iff)
  then have C40: "?C < 1099511627776" by simp
  have "(of_int K :: rat) \<le> of_int 250" using K by (simp only: of_int_le_iff)
  then have k1: "?k \<le> 5 / 4" by simp
  have "(of_int 0 :: rat) < of_int K" using K by (simp only: of_int_less_iff)
  then have k0: "0 < ?k" by simp
  have ek: "\<bar>?kd - ?k\<bar> \<le> \<bar>?k\<bar> / 9007199254740992"
    using round53_rel_err [of ?k] by simp
  with k0 k1 have dk: "\<bar>?kd - ?k\<bar> \<le> (5 / 4) / 9007199254740992" by linarith
  from ek k0 k1 have kd: "0 \<le> ?kd" "?kd \<le> 2" by linarith+
  have "\<bar>?C * ?kd - ?C * ?k\<bar> = \<bar>?C * (?kd - ?k)\<bar>"
    by (simp only: right_diff_distrib)
  also have "\<dots> = \<bar>?C\<bar> * \<bar>?kd - ?k\<bar>" by (rule abs_mult)
  also have "\<dots> = ?C * \<bar>?kd - ?k\<bar>" using C0 by (simp only: abs_of_nonneg)
  also have "\<dots> \<le> 1099511627776 * ((5 / 4) / 9007199254740992)"
    using C0 C40 dk by (intro mult_mono) simp_all
  finally have d1: "\<bar>?C * ?kd - ?C * ?k\<bar> \<le> 1 / 4096" by simp
  have y0: "0 \<le> ?C * ?kd" using C0 kd by simp
  have "?C * ?kd \<le> 1099511627776 * 2"
    using C0 C40 kd by (intro mult_mono) simp_all
  then have y1: "?C * ?kd \<le> 2199023255552" by simp
  have "\<bar>?p - ?C * ?kd\<bar> \<le> \<bar>?C * ?kd\<bar> / 9007199254740992"
    using round53_rel_err [of "?C * ?kd"] by simp
  with y0 y1 have d2: "\<bar>?p - ?C * ?kd\<bar> \<le> 1 / 4096" by linarith
  from d1 d2 have dist: "\<bar>?p - ?C * ?k\<bar> \<le> 1 / 2048" by linarith
  have p0: "0 \<le> ?p" using y0 by (rule round53_nonneg)
  have Yeq: "?Y = 200 * ?F + ?R" by simp
  have "?C * ?k = of_int ?Y / 200" by (simp only: of_int_mult times_divide_eq_right)
  also have "(of_int ?Y :: rat) = of_int (200 * ?F + ?R)" using Yeq by (rule arg_cong)
  also have "(of_int (200 * ?F + ?R) :: rat) / 200 = of_int ?F + of_int ?R / 200"
    by (simp only: of_int_add of_int_mult of_int_numeral add_divide_distrib)
  finally have yr: "?C * ?k = of_int ?F + of_int ?R / 200" .
  have R: "0 \<le> ?R" "?R \<le> 199" by simp_all
  have Y0: "0 \<le> ?Y" using K by simp
  have "?Y \<le> 2 ^ 40 * 250" using c K by (intro mult_mono) simp_all
  then have F64: "?F < 2 ^ 64 - 1" by simp
  have conv: "\<lfloor>?p\<rfloor> < 2 ^ 64 \<Longrightarrow> uint (mul_assign oor c (dbl ?k)) = \<lfloor>?p\<rfloor>"
  proof -
    assume "\<lfloor>?p\<rfloor> < 2 ^ 64"
    from double_to_u64_floor [OF p0 this, of oor] show ?thesis
      using c by (simp add: mul_assign_def dbl_def u64_to_double_exact)
  qed
  show ?thesis
  proof (cases "?R = 0")
    case True
    with yr have "?C * ?k = of_int ?F" by simp
    with dist have b: "of_int ?F - 1 \<le> ?p" "?p < of_int ?F + 1" by linarith+
    have "?F - 1 \<le> \<lfloor>?p\<rfloor>"
      using b(1) by (simp only: le_floor_iff of_int_diff of_int_1)
    moreover have "\<lfloor>?p\<rfloor> < ?F + 1"
      using b(2) by (simp only: floor_less_iff of_int_add of_int_1)
    ultimately have fl: "\<lfloor>?p\<rfloor> = ?F \<or> \<lfloor>?p\<rfloor> = ?F - 1" by linarith
    then have "\<lfloor>?p\<rfloor> < 2 ^ 64" using F64 by linarith
    from conv [OF this] fl True show ?thesis by auto
  next
    case False
    with R have "1 \<le> ?R" by linarith
    then have "(of_int 1 :: rat) \<le> of_int ?R" by (simp only: of_int_le_iff)
    moreover have "(of_int ?R :: rat) \<le> of_int 199" using R by (simp only: of_int_le_iff)
    ultimately have "1 / 200 \<le> (of_int ?R :: rat) / 200" "(of_int ?R :: rat) / 200 \<le> 199 / 200"
      by simp_all
    with yr dist have b: "of_int ?F \<le> ?p" "?p < of_int ?F + 1" by linarith+
    then have fl: "\<lfloor>?p\<rfloor> = ?F" by (rule floor_unique)
    then have "\<lfloor>?p\<rfloor> < 2 ^ 64" using F64 by linarith
    from conv [OF this] fl show ?thesis by simp
  qed
qed

lemma mul_assign_three_quarters:
  assumes c: "uint c < 2 ^ 50"
  shows "uint (mul_assign oor c (Finite (3 / 4))) = (3 * uint c) div 4"
proof -
  let ?C = "of_int (uint c) :: rat"
  have c53: "uint c < 2 ^ 53" using c by simp
  have e: "?C * (3 / 4) = of_int (3 * uint c) * power_int 2 (- 2)"
    by (simp add: power_int_minus_divide)
  have "\<bar>3 * uint c\<bar> < 2 ^ 53" using c by simp
  from round53_exact [OF e this] have r: "round53 (?C * (3 / 4)) = of_int (3 * uint c) / 4"
    by (simp add: power_int_minus_divide)
  have fl: "\<lfloor>(of_int (3 * uint c) :: rat) / 4\<rfloor> = (3 * uint c) div 4"
    using floor_divide_of_int_eq [of "3 * uint c" 4, where ?'a = rat] by simp
  have p0: "0 \<le> (of_int (3 * uint c) :: rat) / 4"
    using rat_uint_nonneg [of c] by simp
  have "(3 * uint c) div 4 < 2 ^ 64" using c by simp
  then have "\<lfloor>(of_int (3 * uint c) :: rat) / 4\<rfloor> < 2 ^ 64" unfolding fl .
  from double_to_u64_floor [OF p0 this, of oor]
  have "uint (double_to_u64 oor (Finite (of_int (3 * uint c) / 4))) = (3 * uint c) div 4"
    unfolding fl .
  moreover have "mul_assign oor c (Finite (3 / 4)) =
      double_to_u64 oor (Finite (of_int (3 * uint c) / 4))"
    by (simp only: mul_assign_def u64_to_double_exact [OF c53] double_mul.simps r)
  ultimately show ?thesis by (simp only:)
qed

lemma mul_assign_five_quarters:
  assumes c: "uint c < 2 ^ 50"
  shows "uint (mul_assign oor c (Finite (5 / 4))) = (5 * uint c) div 4"
proof -
  let ?C = "of_int (uint c) :: rat"
  have c53: "uint c < 2 ^ 53" using c by simp
  have e: "?C * (5 / 4) = of_int (5 * uint c) * power_int 2 (- 2)"
    by (simp add: power_int_minus_divide)
  have "\<bar>5 * uint c\<bar> < 2 ^ 53" using c by simp
  from round53_exact [OF e this] have r: "round53 (?C * (5 / 4)) = of_int (5 * uint c) / 4"
    by (simp add: power_int_minus_divide)
  have fl: "\<lfloor>(of_int (5 * uint c) :: rat) / 4\<rfloor> = (5 * uint c) div 4"
    using floor_divide_of_int_eq [of "5 * uint c" 4, where ?'a = rat] by simp
  have p0: "0 \<le> (of_int (5 * uint c) :: rat) / 4"
    using rat_uint_nonneg [of c] by simp
  have "(5 * uint c) div 4 < 2 ^ 64" using c by simp
  then have "\<lfloor>(of_int (5 * uint c) :: rat) / 4\<rfloor> < 2 ^ 64" unfolding fl .
  from double_to_u64_floor [OF p0 this, of oor]
  have "uint (double_to_u64 oor (Finite (of_int (5 * uint c) / 4))) = (5 * uint c) div 4"
    unfolding fl .
  moreover have "mul_assign oor c (Finite (5 / 4)) =
      double_to_u64 oor (Finite (of_int (5 * uint c) / 4))"
    by (simp only: mul_assign_def u64_to_double_exact [OF c53] double_mul.simps r)
  ultimately show ?thesis by (simp only:)
qed

lemma if_mem: "x \<in> S \<Longrightarrow> y \<in> S \<Longrightarrow> (if c then x else y) \<in> S"
  by simp

lemma claimed_band_factor_cases:
  "claimed_band_factor r \<in>
     {3 / 4, 19 / 20, 99 / 100, 199 / 200, 5 / 4, 21 / 20, 101 / 100, 201 / 200}"
  unfolding claimed_band_factor_def decimal_literals by (intro if_mem) simp_all

lemma mul_assign_claimed:
  assumes c: "uint c < 2 ^ 40"
  shows "let k = claimed_band_factor r; y = of_int (uint c) * k;
             m = mul_assign oor c (dbl k)
         in (uint m = \<lfloor>y\<rfloor> \<or> (y = of_int \<lfloor>y\<rfloor> \<and> uint m = \<lfloor>y\<rfloor> - 1)) \<and>
            (k = 3 / 4 \<or> k = 5 / 4 \<longrightarrow> uint m = \<lfloor>y\<rfloor>)"
proof -
  define P where "P k \<longleftrightarrow>
      (uint (mul_assign oor c (dbl k)) = \<lfloor>of_int (uint c) * k\<rfloor> \<or>
       (of_int (uint c) * k = of_int \<lfloor>of_int (uint c) * k\<rfloor> \<and>
        uint (mul_assign oor c (dbl k)) = \<lfloor>of_int (uint c) * k\<rfloor> - 1))" for k :: rat
  have near: "P (of_int K / 200)" if K: "0 < K" "K \<le> 250" for K :: int
  proof -
    let ?Y = "uint c * K"
    have y: "of_int (uint c) * (of_int K / 200 :: rat) = of_int ?Y / of_int 200"
      by (simp only: of_int_mult times_divide_eq_right of_int_numeral)
    have fl: "\<lfloor>of_int ?Y / (of_int 200 :: rat)\<rfloor> = ?Y div 200"
      by (rule floor_divide_of_int_eq)
    have int: "(of_int ?Y / (of_int 200 :: rat) = of_int (?Y div 200))" if "?Y mod 200 = 0"
    proof -
      from that have "200 dvd ?Y" by (simp only: mod_eq_0_iff_dvd)
      then show ?thesis by (simp only: of_int_div)
    qed
    from mul_assign_near_exact [OF c K, of oor] show ?thesis
      unfolding P_def y fl using int by auto
  qed
  have eight: "P (3 / 4)" "P (19 / 20)" "P (99 / 100)" "P (199 / 200)"
    "P (5 / 4)" "P (21 / 20)" "P (101 / 100)" "P (201 / 200)"
    using near [of 150] near [of 190] near [of 198] near [of 199]
      near [of 250] near [of 210] near [of 202] near [of 201]
    by simp_all
  have "claimed_band_factor r = 3 / 4 \<or> claimed_band_factor r = 19 / 20 \<or>
        claimed_band_factor r = 99 / 100 \<or> claimed_band_factor r = 199 / 200 \<or>
        claimed_band_factor r = 5 / 4 \<or> claimed_band_factor r = 21 / 20 \<or>
        claimed_band_factor r = 101 / 100 \<or> claimed_band_factor r = 201 / 200"
    using claimed_band_factor_cases [of r] by (simp only: insert_iff empty_iff simp_thms)
  then have first: "P (claimed_band_factor r)"
    by (elim disjE) (simp_all only: eight)
  have exact34: "uint (mul_assign oor c (dbl (3 / 4))) = \<lfloor>of_int (uint c) * (3 / 4 :: rat)\<rfloor>"
  proof -
    have "uint c < 2 ^ 50" using c by simp
    from mul_assign_three_quarters [OF this, of oor]
    have "uint (mul_assign oor c (dbl (3 / 4))) = (3 * uint c) div 4"
      by (simp only: dbl_literals)
    moreover have "\<lfloor>of_int (3 * uint c) / (of_int 4 :: rat)\<rfloor> = (3 * uint c) div 4"
      by (rule floor_divide_of_int_eq)
    moreover have "of_int (uint c) * (3 / 4 :: rat) = of_int (3 * uint c) / of_int 4"
      by (simp only: of_int_mult of_int_numeral)
    ultimately show ?thesis by (simp only:)
  qed
  have exact54: "uint (mul_assign oor c (dbl (5 / 4))) = \<lfloor>of_int (uint c) * (5 / 4 :: rat)\<rfloor>"
  proof -
    have "uint c < 2 ^ 50" using c by simp
    from mul_assign_five_quarters [OF this, of oor]
    have "uint (mul_assign oor c (dbl (5 / 4))) = (5 * uint c) div 4"
      by (simp only: dbl_literals)
    moreover have "\<lfloor>of_int (5 * uint c) / (of_int 4 :: rat)\<rfloor> = (5 * uint c) div 4"
      by (rule floor_divide_of_int_eq)
    moreover have "of_int (uint c) * (5 / 4 :: rat) = of_int (5 * uint c) / of_int 4"
      by (simp only: of_int_mult of_int_numeral)
    ultimately show ?thesis by (simp only:)
  qed
  have second: "claimed_band_factor r = 3 / 4 \<or> claimed_band_factor r = 5 / 4 \<longrightarrow>
                uint (mul_assign oor c (dbl (claimed_band_factor r))) =
                  \<lfloor>of_int (uint c) * claimed_band_factor r\<rfloor>"
    by (intro impI, elim disjE) (simp_all only: exact34 exact54)
  from first [unfolded P_def] second show ?thesis
    unfolding Let_def by (rule conjI)
qed

subsection \<open>The quotient of the writing-rate sample\<close>

lemma write_rate_sample_unfold:
  assumes se: "uint start < uint end" and e53: "uint end < 2 ^ 53" and n: "uint n < 2 ^ 53"
  shows "write_rate_sample oor start end n =
           double_to_u64 oor (Finite (round53 (of_int (uint n) /
              round53 (of_int (uint end - uint start) / 1000))))
         \<and> 0 < round53 (of_int (uint end - uint start) / 1000 :: rat)"
proof -
  let ?d = "uint end - uint start"
  let ?D = "of_int ?d / 1000 :: rat"
  have ne: "start \<noteq> end" using se by auto
  have s53: "uint start < 2 ^ 53" using se e53 by simp
  have e53n: "uint end < 9007199254740992" using e53 by simp
  have d1: "0 < ?d" using se by simp
  have "\<bar>?d\<bar> < 9007199254740992" using se e53n uint_ge_0 [of start] by linarith
  then have d2: "\<bar>?d\<bar> < 2 ^ 53" by simp
  note d = d1 d2
  have "(of_int 0 :: rat) < of_int ?d" using d(1) by (simp only: of_int_less_iff)
  then have D0: "0 < ?D" by simp
  have "\<bar>round53 ?D - ?D\<bar> \<le> \<bar>?D\<bar> / 9007199254740992"
    using round53_rel_err [of ?D] by simp
  with D0 have dur0: "0 < round53 ?D" by linarith
  have sub: "double_sub (u64_to_double end) (u64_to_double start) = Finite (of_int ?d)"
    by (simp only: u64_to_double_exact [OF e53] u64_to_double_exact [OF s53] double_sub.simps
        round53_of_int [OF d(2)] flip: of_int_diff)
  have dur: "double_div (Finite (of_int ?d)) (Finite 1000) = Finite (round53 ?D)"
    by simp
  have q: "double_div (u64_to_double n) (Finite (round53 ?D)) =
           Finite (round53 (of_int (uint n) / round53 ?D))"
    using dur0 by (simp only: u64_to_double_exact [OF n] double_div.simps) simp
  have "write_rate_sample oor start end n =
        double_to_u64 oor (Finite (round53 (of_int (uint n) / round53 ?D)))"
    using ne by (simp only: write_rate_sample_def Let_def sub dur q if_False)
  from this dur0 show ?thesis by (rule conjI)
qed

lemma quotient_rounding_close:
  fixes N D :: rat
  assumes N: "0 \<le> N" "N \<le> 1099511627776" and D: "0 < D"
  shows "\<bar>round53 (N / round53 D) * D - N\<bar> \<le> 1 / 2048"
    and "0 \<le> round53 (N / round53 D)"
proof -
  define dur where "dur = round53 D"
  define x where "x = N / dur"
  define q where "q = round53 x"
  have ed: "\<bar>dur - D\<bar> \<le> \<bar>D\<bar> / 9007199254740992"
    unfolding dur_def using round53_rel_err [of D] by simp
  with D have dur0: "0 < dur" by linarith
  then have x0: "0 \<le> x" unfolding x_def using N by simp
  then have "0 \<le> q" unfolding q_def by (rule round53_nonneg)
  then show "0 \<le> round53 (N / round53 D)" unfolding q_def x_def dur_def .
  have xd: "x * dur = N" unfolding x_def using dur0 by simp
  have lo: "D - D / 9007199254740992 \<le> dur" and hi: "dur \<le> D + D / 9007199254740992"
    using ed D by linarith+
  have "x * (D - D / 9007199254740992) \<le> x * dur"
    using lo x0 by (rule mult_left_mono)
  then have X1: "x * D - (x * D) / 9007199254740992 \<le> N"
    unfolding xd by (simp add: algebra_simps)
  have "x * dur \<le> x * (D + D / 9007199254740992)"
    using hi x0 by (rule mult_left_mono)
  then have X2: "N \<le> x * D + (x * D) / 9007199254740992"
    unfolding xd by (simp add: algebra_simps)
  have eq: "\<bar>q - x\<bar> \<le> \<bar>x\<bar> / 9007199254740992"
    unfolding q_def using round53_rel_err [of x] by simp
  have "\<bar>q * D - x * D\<bar> = \<bar>(q - x) * D\<bar>" by (simp only: left_diff_distrib)
  also have "\<dots> = \<bar>q - x\<bar> * \<bar>D\<bar>" by (rule abs_mult)
  also have "\<dots> = \<bar>q - x\<bar> * D" using D by (simp only: abs_of_pos)
  also have "\<dots> \<le> (\<bar>x\<bar> / 9007199254740992) * D"
    using eq D by (intro mult_right_mono) simp_all
  also have "\<dots> = (x * D) / 9007199254740992" using x0 by simp
  finally have Z: "\<bar>q * D - x * D\<bar> \<le> (x * D) / 9007199254740992" .
  have XD0: "0 \<le> x * D" using x0 D by simp
  from Z X1 X2 XD0 N have "\<bar>q * D - N\<bar> \<le> 1 / 2048" by linarith
  then show "\<bar>round53 (N / round53 D) * D - N\<bar> \<le> 1 / 2048"
    unfolding q_def x_def dur_def .
qed


lemma write_rate_sample_near_exact:
  assumes se: "uint start < uint end" and e53: "uint end < 2 ^ 53" and n40: "uint n < 2 ^ 40"
  shows "uint (write_rate_sample oor start end n) =
           (1000 * uint n) div (uint end - uint start) \<or>
         ((1000 * uint n) mod (uint end - uint start) = 0 \<and>
          uint (write_rate_sample oor start end n) =
            (1000 * uint n) div (uint end - uint start) - 1)"
proof -
  let ?d = "uint end - uint start"
  let ?Y = "1000 * uint n"
  let ?F = "?Y div ?d" and ?R = "?Y mod ?d"
  define dR :: rat where "dR = of_int ?d"
  define N :: rat where "N = of_int (uint n)"
  define q where "q = round53 (N / round53 (dR / 1000))"
  have d0: "0 < ?d" using se by simp
  then have "1 \<le> ?d" by simp
  then have "(of_int 1 :: rat) \<le> of_int ?d" by (simp only: of_int_le_iff)
  then have dR1: "1 \<le> dR" unfolding dR_def by simp
  have N0: "0 \<le> N" unfolding N_def by (rule rat_uint_nonneg)
  have "uint n \<le> 2 ^ 40" using n40 by simp
  then have "(of_int (uint n) :: rat) \<le> of_int (2 ^ 40)" by (simp only: of_int_le_iff)
  then have N40: "N \<le> 1099511627776" unfolding N_def by simp
  have D0: "0 < dR / 1000" using dR1 by simp
  from quotient_rounding_close [OF N0 N40 D0]
  have cl: "\<bar>q * (dR / 1000) - N\<bar> \<le> 1 / 2048" and q0: "0 \<le> q"
    unfolding q_def by simp_all
  from cl have close: "\<bar>q * dR - 1000 * N\<bar> \<le> 1000 / 2048" by (simp add: field_simps)
  have n53: "uint n < 2 ^ 53" using n40 by simp
  have smp: "write_rate_sample oor start end n = double_to_u64 oor (Finite q)"
    using write_rate_sample_unfold [OF se e53 n53, of oor]
    unfolding q_def N_def dR_def by (rule conjunct1)
  have Yeq: "?Y = ?d * ?F + ?R" by simp
  then have "(of_int ?Y :: rat) = of_int (?d * ?F + ?R)" by (rule arg_cong)
  then have Yr: "1000 * N = dR * of_int ?F + of_int ?R"
    unfolding N_def dR_def by (simp only: of_int_add of_int_mult of_int_numeral)
  define PQ where "PQ = q * dR"
  define PF where "PF = dR * of_int ?F"
  have dR0: "0 < dR" using dR1 by simp
  have close': "\<bar>PQ - 1000 * N\<bar> \<le> 1000 / 2048" using close unfolding PQ_def .
  have Yr': "1000 * N = PF + of_int ?R" using Yr unfolding PF_def .
  have R: "0 \<le> ?R" "?R < ?d" using d0 by simp_all
  have Y0: "0 \<le> ?Y" by simp
  have "?F \<le> ?Y"
  proof (cases "?Y = 0")
    case True
    then show ?thesis by simp
  next
    case False
    with Y0 have "0 < ?Y" by linarith
    then show ?thesis by (rule int_div_le_self)
  qed
  moreover have "?Y \<le> 1000 * 2 ^ 40" using n40 by simp
  ultimately have F64: "?F < 2 ^ 64" by simp
  have conv: "uint (write_rate_sample oor start end n) = \<lfloor>q\<rfloor>" if "\<lfloor>q\<rfloor> < 2 ^ 64"
    unfolding smp using q0 that by (rule double_to_u64_floor)
  show ?thesis
  proof (cases "?R = 0")
    case True
    with Yr' have "1000 * N = PF" by simp
    with close' dR1 have "PF - dR \<le> PQ" "PQ < PF + dR" by linarith+
    then have "(of_int ?F - 1) * dR \<le> q * dR" "q * dR < (of_int ?F + 1) * dR"
      unfolding PQ_def PF_def by (simp_all add: algebra_simps)
    then have b: "of_int ?F - 1 \<le> q" "q < of_int ?F + 1"
      by (simp_all only: mult_le_cancel_right_pos [OF dR0] mult_less_cancel_right_pos [OF dR0])
    have "?F - 1 \<le> \<lfloor>q\<rfloor>"
      using b(1) by (simp only: le_floor_iff of_int_diff of_int_1)
    moreover have "\<lfloor>q\<rfloor> < ?F + 1"
      using b(2) by (simp only: floor_less_iff of_int_add of_int_1)
    ultimately have fl: "\<lfloor>q\<rfloor> = ?F \<or> \<lfloor>q\<rfloor> = ?F - 1" by linarith
    then have "\<lfloor>q\<rfloor> < 2 ^ 64" using F64 by linarith
    from conv [OF this] fl True show ?thesis by auto
  next
    case False
    with R have "1 \<le> ?R" "?R \<le> ?d - 1" by linarith+
    then have "(of_int 1 :: rat) \<le> of_int ?R" "(of_int ?R :: rat) \<le> of_int (?d - 1)"
      by (simp_all only: of_int_le_iff)
    then have Rr: "1 \<le> (of_int ?R :: rat)" "(of_int ?R :: rat) \<le> dR - 1"
      unfolding dR_def by simp_all
    with Yr' close' have "PF \<le> PQ" "PQ < PF + dR" by linarith+
    then have "of_int ?F * dR \<le> q * dR" "q * dR < (of_int ?F + 1) * dR"
      unfolding PQ_def PF_def by (simp_all add: algebra_simps)
    then have b: "of_int ?F \<le> q" "q < of_int ?F + 1"
      by (simp_all only: mult_le_cancel_right_pos [OF dR0] mult_less_cancel_right_pos [OF dR0])
    then have fl: "\<lfloor>q\<rfloor> = ?F" by (rule floor_unique)
    then have "\<lfloor>q\<rfloor> < 2 ^ 64" using F64 by linarith
    from conv [OF this] fl show ?thesis by simp
  qed
qed

lemma exact_quotient:
  fixes n e s :: int
  shows "(of_int n / ((of_int e - of_int s) / 1000) :: rat) = of_int (1000 * n) / of_int (e - s)"
proof -
  have "(of_int n / ((of_int e - of_int s) / 1000) :: rat) =
        (1000 * of_int n) / (of_int e - of_int s)"
    by simp
  also have "\<dots> = of_int (1000 * n) / of_int (e - s)"
    by simp
  finally show ?thesis .
qed

section \<open>Basic facts about the operations\<close>

lemma reachable_fresh: "reachable fresh"
  unfolding fresh_def by (rule r_init)

lemma reachable_run_ticks: "reachable s \<Longrightarrow> reachable (run_ticks oor evs s)"
  by (induction oor evs s rule: run_ticks.induct) (simp_all add: r_tick)

lemma bump_ge_1: "1 \<le> bump c"
  unfolding bump_def by (auto simp: word_le_nat_alt unat_word_ariths)

lemma rollover_coeff_ge_1: "1 \<le> bytes_per_microsecond (rollover oor s)"
  by (simp add: rollover_def Let_def bump_ge_1)

lemma Tick_coeff:
  "bytes_per_microsecond (fst (Tick oor now n s)) =
     (if now \<noteq> epoch_last s
      then bytes_per_microsecond (rollover oor (s\<lparr>epoch_current := now\<rparr>))
      else bytes_per_microsecond s)"
  by (simp add: Tick_def Let_def)

lemma StoreWritingRate_coeff [simp]:
  "bytes_per_microsecond (StoreWritingRate r s) = bytes_per_microsecond s"
  by (simp add: StoreWritingRate_def Let_def)

lemma reachable_coeff: "reachable s \<Longrightarrow> 1 \<le> bytes_per_microsecond s"
proof (induction rule: reachable.induct)
  case (r_init rl ews ewe rw)
  show ?case by (simp add: RateLimiter_def)
next
  case (r_tick s oor now n)
  then show ?case by (simp add: Tick_coeff rollover_coeff_ge_1)
next
  case (r_write_start s now_ms)
  then show ?case by (simp add: WriteStart_def)
next
  case (r_write_end s oor now_ms n)
  then show ?case by (simp add: WriteEnd_def Let_def)
next
  case (r_store s r)
  then show ?case by simp
qed

lemma sleep_le: "sleep_microseconds c n \<le> 50000"
  by (simp add: sleep_microseconds_def Let_def not_less)

lemma Tick_sleep:
  "snd (Tick oor now n s) =
     sleep_microseconds (bytes_per_microsecond (fst (Tick oor now n s))) n"
  by (simp add: Tick_def Let_def)

lemma rates_StoreWritingRate:
  "rates (StoreWritingRate r s) =
     (if 10 \<le> length (rates s) then tl (rates s) else rates s) @ [r]"
  by (simp add: StoreWritingRate_def Let_def)

lemma rates_Tick [simp]: "rates (fst (Tick oor now n s)) = rates s"
  by (simp add: Tick_def Let_def rollover_def)

lemma rates_WriteEnd:
  "rates (WriteEnd oor now_ms n s) =
     (if 10 \<le> length (rates s) then tl (rates s) else rates s) @
     [write_rate_sample oor (epoch_write_start s) now_ms n]"
  by (simp add: WriteEnd_def Let_def rates_StoreWritingRate)

lemma reachable_length: "reachable s \<Longrightarrow> length (rates s) \<le> 10"
  by (induction rule: reachable.induct)
     (auto simp: RateLimiter_def WriteStart_def rates_WriteEnd rates_StoreWritingRate)

lemma store_all_keep_last:
  "length (rates s) \<le> 10 \<Longrightarrow>
   rates (store_all xs s) = drop (length (rates s @ xs) - 10) (rates s @ xs)"
proof (induction xs arbitrary: s)
  case Nil
  then show ?case by simp
next
  case (Cons x xs)
  let ?s = "StoreWritingRate x s"
  have len: "length (rates ?s) \<le> 10"
    using Cons.prems by (auto simp: rates_StoreWritingRate)
  have "rates (store_all (x # xs) s) = rates (store_all xs ?s)" by simp
  also have "\<dots> = drop (length (rates ?s @ xs) - 10) (rates ?s @ xs)"
    by (rule Cons.IH [OF len])
  also have "\<dots> = drop (length (rates s @ x # xs) - 10) (rates s @ x # xs)"
  proof (cases "10 \<le> length (rates s)")
    case True
    with Cons.prems have l: "length (rates s) = 10" by simp
    then obtain y ys where ys: "rates s = y # ys" by (cases "rates s") auto
    with l show ?thesis by (simp add: rates_StoreWritingRate)
  next
    case False
    then show ?thesis by (simp add: rates_StoreWritingRate)
  qed
  finally show ?case .
qed

lemma foldl_add_word: "foldl (+) (a :: u64) xs = a + sum_list xs"
  by (induction xs arbitrary: a) (simp_all add: add.assoc)

lemma uint_sum_list: "uint (sum_list (xs :: u64 list)) = sum_list (map uint xs) mod 2 ^ 64"
proof (induction xs)
  case Nil
  then show ?case by simp
next
  case (Cons x xs)
  have "uint (x + sum_list xs) = (uint x + uint (sum_list xs)) mod 2 ^ 64"
    by (simp add: uint_word_ariths)
  also have "\<dots> = (uint x + sum_list (map uint xs) mod 2 ^ 64) mod 2 ^ 64"
    by (simp add: Cons.IH)
  also have "\<dots> = (uint x + sum_list (map uint xs)) mod 2 ^ 64"
    by (simp add: mod_add_right_eq)
  finally show ?case by simp
qed

lemma uint_length_small:
  "length (xs :: 'a list) \<le> 10 \<Longrightarrow> uint (of_nat (length xs) :: u64) = int (length xs)"
  by (simp add: uint_nat unat_of_nat)

lemma GetWritingRate_nonempty:
  assumes "rates s \<noteq> []" "length (rates s) \<le> 10"
  shows "uint (GetWritingRate s) =
     (let m = (sum_list (map uint (rates s)) mod 2 ^ 64) div int (length (rates s))
      in if 0 < uint (rate_limit s) \<and> uint (rate_limit s) < m then uint (rate_limit s) else m)"
proof -
  let ?m = "foldl (+) 0 (rates s) div of_nat (length (rates s))"
  have m: "uint ?m = (sum_list (map uint (rates s)) mod 2 ^ 64) div int (length (rates s))"
    using assms(2) by (simp add: uint_div foldl_add_word uint_sum_list uint_length_small)
  have g: "GetWritingRate s =
      (if 0 < rate_limit s \<and> rate_limit s < ?m then rate_limit s else ?m)"
    using assms(1) by (simp add: GetWritingRate_def Let_def)
  show ?thesis
    unfolding g Let_def m [symmetric]
    by (simp add: word_less_def)
qed

lemma GetWritingRate_positive_iff:
  assumes "length (rates s) \<le> 10"
  shows "(0 < GetWritingRate s) =
         (rates s = [] \<or> of_nat (length (rates s)) \<le> foldl (+) 0 (rates s))"
proof (cases "rates s = []")
  case True
  then show ?thesis by (simp add: GetWritingRate_def)
next
  case False
  let ?n = "of_nat (length (rates s)) :: u64"
  let ?sum = "foldl (+) 0 (rates s)"
  let ?m = "?sum div ?n"
  have n: "uint ?n = int (length (rates s))"
    using assms by (rule uint_length_small)
  have npos: "0 < uint ?n" using False n by simp
  have g: "GetWritingRate s =
      (if 0 < rate_limit s \<and> rate_limit s < ?m then rate_limit s else ?m)"
    using False by (simp add: GetWritingRate_def Let_def)
  have "(0 < GetWritingRate s) = (0 < ?m)"
    unfolding g by (auto simp: word_less_def)
  also have "\<dots> = (0 < uint ?sum div uint ?n)"
    by (simp add: word_less_def uint_div)
  also have "\<dots> = (uint ?n \<le> uint ?sum)"
    using npos by (simp add: pos_imp_zdiv_pos_iff)
  also have "\<dots> = (?n \<le> ?sum)"
    by (simp add: word_le_def)
  finally show ?thesis using False by simp
qed

subsection \<open>The controller\<close>

lemma GetWritingRate_cong:
  "rates s' = rates s \<Longrightarrow> rate_limit s' = rate_limit s \<Longrightarrow> GetWritingRate s' = GetWritingRate s"
  by (simp add: GetWritingRate_def Let_def)

lemma rollover_coeff:
  "bytes_per_microsecond (rollover oor s) =
     bump (mul_assign oor (bytes_per_microsecond s)
             (band_factor (adjusted_arrival s) (GetWritingRate s)))"
proof -
  have "GetWritingRate (s\<lparr>rate_arriving_adjusted := adjusted_arrival s,
                           duration_slept := 0, rate_arriving := 0,
                           epoch_last := epoch_current s\<rparr>) = GetWritingRate s"
    by (rule GetWritingRate_cong) simp_all
  then show ?thesis by (simp add: rollover_def Let_def)
qed

lemma Tick_rollover_coeff:
  "now \<noteq> epoch_last s \<Longrightarrow>
   bytes_per_microsecond (fst (Tick oor now n s)) =
     bump (mul_assign oor (bytes_per_microsecond s)
             (band_factor (adjusted_arrival s) (GetWritingRate s)))"
proof -
  assume "now \<noteq> epoch_last s"
  moreover have "adjusted_arrival (s\<lparr>epoch_current := now\<rparr>) = adjusted_arrival s"
    by (simp add: adjusted_arrival_def)
  moreover have "GetWritingRate (s\<lparr>epoch_current := now\<rparr>) = GetWritingRate s"
    by (rule GetWritingRate_cong) simp_all
  ultimately show ?thesis by (simp add: Tick_coeff rollover_coeff)
qed

lemma band_factor_overload_cases:
  assumes "w < a"
  shows "band_factor a w \<in> {Finite (3 / 4), Finite (4278419646001971 / 4503599627370496),
           Finite (4458563631096791 / 4503599627370496),
           Finite (8962163258467287 / 9007199254740992)}"
  using assms by (simp add: band_factor_def Let_def dbl_literals)

lemma mul_assign_overload_lt:
  assumes "w < a" and c: "1 \<le> c"
  shows "mul_assign oor c (band_factor a w) < c"
proof -
  have "band_factor a w = Finite (3 / 4) \<or>
        band_factor a w = Finite (4278419646001971 / 4503599627370496) \<or>
        band_factor a w = Finite (4458563631096791 / 4503599627370496) \<or>
        band_factor a w = Finite (8962163258467287 / 9007199254740992)"
    using band_factor_overload_cases [OF assms(1)] by simp
  then show ?thesis
    by (elim disjE) (simp_all add: mul_assign_lt c)
qed

lemma binade_1_2: "1 \<le> x \<Longrightarrow> x < 2 \<Longrightarrow> binade x = 0"
proof -
  assume a: "1 \<le> x" "x < 2"
  then have "\<lfloor>x\<rfloor> = 1" by (intro floor_unique) simp_all
  with a show ?thesis by (simp add: binade_def bitlen_alt_def)
qed

lemma round53_gt_three_halves:
  assumes "3 / 2 + 1 / 2 ^ 53 < r"
  shows "3 / 2 < round53 r"
proof (cases "r < 2")
  case True
  with assms have b: "binade \<bar>r\<bar> = 0" by (intro binade_1_2) simp_all
  have "r \<noteq> 0" using assms by auto
  from round53_err_abs [OF this] b have "\<bar>round53 r - r\<bar> \<le> 1 / 2 ^ 53"
    by (simp add: power_int_minus_divide)
  with assms show ?thesis by linarith
next
  case False
  have "\<bar>round53 r - r\<bar> \<le> \<bar>r\<bar> / 9007199254740992"
    using round53_rel_err [of r] by simp
  with False show ?thesis by linarith
qed

lemma band_factor_three_quarters:
  assumes ov: "3 * uint w < 2 * uint a" and small: "uint a < 2 ^ 52"
  shows "band_factor a w = Finite (3 / 4)"
proof -
  have wa: "w < a" unfolding word_less_def using ov uint_ge_0 [of a] by linarith
  have a53: "\<bar>uint a\<bar> < 2 ^ 53" "\<bar>uint w\<bar> < 2 ^ 53" using ov small by simp_all
  have ca: "u64_to_double a = Finite (of_int (uint a))"
    and cw: "u64_to_double w = Finite (of_int (uint w))"
    using a53 by (simp_all only: u64_to_double_def round53_of_int)
  show ?thesis
  proof (cases "uint w = 0")
    case True
    then have "0 < uint a" using ov by simp
    then have "(of_int 0 :: rat) < of_int (uint a)" by (simp only: of_int_less_iff)
    with True wa show ?thesis
      unfolding band_factor_def Let_def ca cw by (simp add: dbl_thresholds dbl_literals)
  next
    case False
    then have wpos: "0 < uint w" by (smt (verit) uint_ge_0)
    let ?A = "of_int (uint a) :: rat" and ?W = "of_int (uint w) :: rat"
    have W0: "0 < ?W" using wpos by (simp only: of_int_0_less_iff)
    have "uint w < 2 ^ 52" using ov small by simp
    then have "?W < of_int (2 ^ 52)" by (simp only: of_int_less_iff)
    then have W52: "?W < 2 ^ 52" by simp
    have "3 * uint w + 1 \<le> 2 * uint a" using ov by simp
    then have "(of_int (3 * uint w + 1) :: rat) \<le> of_int (2 * uint a)"
      by (simp only: of_int_le_iff)
    then have le: "3 * ?W + 1 \<le> 2 * ?A" by (simp only: of_int_add of_int_mult of_int_numeral of_int_1)
    have "3 / 2 + 1 / 2 ^ 53 < 3 / 2 + 1 / (2 * ?W)"
      using W0 W52 by (simp add: field_simps)
    also have "\<dots> = (3 * ?W + 1) / (2 * ?W)"
      using W0 by (simp add: field_simps)
    also have "\<dots> \<le> (2 * ?A) / (2 * ?W)"
      using le W0 by (intro divide_right_mono) simp_all
    also have "\<dots> = ?A / ?W" by simp
    finally have "3 / 2 < round53 (?A / ?W)" by (rule round53_gt_three_halves)
    moreover have "?W \<noteq> 0" using W0 by simp
    ultimately show ?thesis
      using wa unfolding band_factor_def Let_def ca cw
      by (simp add: dbl_thresholds dbl_literals)
  qed
qed

subsection \<open>The concrete runs, evaluated\<close>

lemma at_200_eq:
  "at_200 =
     \<lparr>epoch_write_start = 0, epoch_write_end = 0, rate_limit = 0, rate_arriving = 500000,
       rate_arriving_adjusted = 0, rate_writing = 0, epoch_last = 21, epoch_current = 21,
       duration_slept = 2500, bytes_per_microsecond = 200, rates = []\<rparr>"
  by code_simp

lemma after_ramp_up_eq:
  "after_ramp_up =
     \<lparr>epoch_write_start = 0, epoch_write_end = 0, rate_limit = 0, rate_arriving = 10000000,
       rate_arriving_adjusted = 0, rate_writing = 0, epoch_last = 5, epoch_current = 5,
       duration_slept = 50000, bytes_per_microsecond = 10, rates = []\<rparr>"
  by code_simp

lemma ratio_1_6_eq:
  "ratio_1_6 =
     \<lparr>epoch_write_start = 0, epoch_write_end = 0, rate_limit = 0, rate_arriving = 262144000,
       rate_arriving_adjusted = 0, rate_writing = 0, epoch_last = 0, epoch_current = 0,
       duration_slept = 0, bytes_per_microsecond = 5, rates = [163840000]\<rparr>"
  by code_simp

section \<open>The claims\<close>

subsection \<open>C1: the coefficient never drops below 1\<close>

text \<open>
  Claim C1.  In every reachable state of the rate limiter (the constructed state and
  every state after any sequence of \<^verbatim>\<open>Tick\<close>, \<^verbatim>\<open>WriteStart\<close>, \<^verbatim>\<open>WriteEnd\<close> and
  \<^verbatim>\<open>StoreWritingRate\<close> calls, with any clock readings, byte counts and results of
  out-of-range conversions) \<^verbatim>\<open>bytes_per_microsecond_\<close> is at least 1; in particular it
  is at least 1 right after the controller has adjusted it at an epoch rollover.
\<close>

theorem coefficient_at_least_one:
  assumes "reachable s"
  shows "1 \<le> bytes_per_microsecond s \<and>
         (now \<noteq> epoch_last s \<longrightarrow> 1 \<le> bytes_per_microsecond (fst (Tick oor now n s)))"
proof
  show "1 \<le> bytes_per_microsecond s"
    using assms by (rule reachable_coeff)
  show "now \<noteq> epoch_last s \<longrightarrow> 1 \<le> bytes_per_microsecond (fst (Tick oor now n s))"
    by (simp add: Tick_coeff rollover_coeff_ge_1)
qed

theorem coefficient_at_least_one_witness:
  "reachable (fst (Tick oor_zero 1 0 fresh)) \<and>
   1 \<le> bytes_per_microsecond (fst (Tick oor_zero 1 0 fresh)) \<and>
   (2 \<noteq> epoch_last (fst (Tick oor_zero 1 0 fresh)) \<and>
    1 \<le> bytes_per_microsecond
          (fst (Tick oor_zero 2 0 (fst (Tick oor_zero 1 0 fresh)))))"
proof -
  have r: "reachable (fst (Tick oor_zero 1 0 fresh))"
    by (rule r_tick [OF reachable_fresh])
  have e: "2 \<noteq> epoch_last (fst (Tick oor_zero 1 0 fresh))"
    by code_simp
  show ?thesis
    using r e coefficient_at_least_one [OF r, of 2 oor_zero 0] by simp
qed

subsection \<open>C3: one call sleeps for at most 50,000 microseconds\<close>

text \<open>
  Claim C3.  For every byte count and every state, the sleep that one call of
  \<^verbatim>\<open>Tick\<close> imposes is at most 50,000 microseconds: it is the quotient of
  \<open>bytes_arriving\<close> by the coefficient in force after the possible rollover (0 when
  that coefficient is 0), clamped to 50,000.
\<close>

theorem tick_sleep_at_most_50000:
  "unat (snd (Tick oor now bytes_arriving s)) \<le> 50000 \<and>
   snd (Tick oor now bytes_arriving s) =
     (let c = bytes_per_microsecond (fst (Tick oor now bytes_arriving s));
          sl = (if 0 < c then bytes_arriving div c else 0)
      in if 50000 < sl then 50000 else sl)"
proof
  have "snd (Tick oor now bytes_arriving s) \<le> 50000"
    by (simp add: Tick_sleep sleep_le)
  then show "unat (snd (Tick oor now bytes_arriving s)) \<le> 50000"
    by (simp add: word_le_nat_alt)
  show "snd (Tick oor now bytes_arriving s) =
     (let c = bytes_per_microsecond (fst (Tick oor now bytes_arriving s));
          sl = (if 0 < c then bytes_arriving div c else 0)
      in if 50000 < sl then 50000 else sl)"
    by (simp add: Tick_sleep sleep_microseconds_def)
qed

subsection \<open>C6: the history keeps the last ten samples\<close>

text \<open>
  Claim C6.  The history of writing-rate samples holds at most 10 samples in every
  reachable state, \<^verbatim>\<open>WriteEnd\<close> stores its sample through \<^verbatim>\<open>StoreWritingRate\<close>, and
  eviction is first-in first-out: from an empty history, storing any samples leaves the
  last ten of them in arrival order, so the 11th store evicts exactly the sample of the
  1st and leaves samples 2 to 11.
\<close>

theorem history_at_most_ten_fifo:
  "(reachable s \<longrightarrow> length (rates s) \<le> 10) \<and>
   rates (WriteEnd oor now_ms n s) =
     rates (StoreWritingRate (write_rate_sample oor (epoch_write_start s) now_ms n) s) \<and>
   (rates s = [] \<longrightarrow>
      rates (store_all xs s) = drop (length xs - 10) xs \<and>
      rates (store_all [x1, x2, x3, x4, x5, x6, x7, x8, x9, x10, x11] s) =
        [x2, x3, x4, x5, x6, x7, x8, x9, x10, x11])"
proof (intro conjI impI)
  assume "reachable s"
  then show "length (rates s) \<le> 10" by (rule reachable_length)
next
  show "rates (WriteEnd oor now_ms n s) =
     rates (StoreWritingRate (write_rate_sample oor (epoch_write_start s) now_ms n) s)"
    by (simp add: rates_WriteEnd rates_StoreWritingRate)
next
  assume e: "rates s = []"
  then show "rates (store_all xs s) = drop (length xs - 10) xs"
    using store_all_keep_last [of s xs] by simp
next
  assume e: "rates s = []"
  then show "rates (store_all [x1, x2, x3, x4, x5, x6, x7, x8, x9, x10, x11] s) =
        [x2, x3, x4, x5, x6, x7, x8, x9, x10, x11]"
    using store_all_keep_last [of s "[x1, x2, x3, x4, x5, x6, x7, x8, x9, x10, x11]"]
    by simp
qed

theorem history_at_most_ten_fifo_witness:
  "reachable fresh \<and> rates fresh = [] \<and>
   length (rates fresh) \<le> 10 \<and>
   rates (store_all [1, 2, 3, 4, 5, 6, 7, 8, 9, 10, 11] fresh) =
     [2, 3, 4, 5, 6, 7, 8, 9, 10, 11]"
proof -
  have r: "reachable fresh" by (rule reachable_fresh)
  have e: "rates fresh = []" by (simp add: fresh_def RateLimiter_def)
  show ?thesis
    using r e
      history_at_most_ten_fifo [of fresh oor_zero 0 0
        "[1, 2, 3, 4, 5, 6, 7, 8, 9, 10, 11]" 1 2 3 4 5 6 7 8 9 10 11]
    by simp
qed

subsection \<open>C10: the preloaded arrival counter\<close>

text \<open>
  Claim C10.  Right after construction \<^verbatim>\<open>rate_arriving_\<close> is 262,144,000
  (250 * 1024 * 1024), \<^verbatim>\<open>duration_slept_\<close> is 0 and the coefficient is 5.  Hence the
  adjusted arrival rate computed at the first epoch rollover (the first \<^verbatim>\<open>Tick\<close>
  whose clock reading is not 0) is 262,144,000, whatever byte count that call passes and
  although no bytes were passed before.
\<close>

theorem constructor_preloads_arrival:
  "rate_arriving (RateLimiter rl ews ewe rw) = 262144000 \<and>
   duration_slept (RateLimiter rl ews ewe rw) = 0 \<and>
   bytes_per_microsecond (RateLimiter rl ews ewe rw) = 5 \<and>
   (now \<noteq> 0 \<longrightarrow>
      rate_arriving_adjusted (fst (Tick oor now n (RateLimiter rl ews ewe rw))) = 262144000)"
proof (intro conjI impI)
  let ?s = "RateLimiter rl ews ewe rw"
  show "rate_arriving ?s = 262144000" by (simp add: RateLimiter_def)
  show "duration_slept ?s = 0" by (simp add: RateLimiter_def)
  show "bytes_per_microsecond ?s = 5" by (simp add: RateLimiter_def)
  assume "now \<noteq> 0"
  then have ro: "now \<noteq> epoch_last ?s" by (simp add: RateLimiter_def)
  have adj: "adjusted_arrival (?s\<lparr>epoch_current := now\<rparr>) = 262144000"
    by (simp add: adjusted_arrival_def RateLimiter_def)
  have "rate_arriving_adjusted (fst (Tick oor now n ?s)) =
        rate_arriving_adjusted (rollover oor (?s\<lparr>epoch_current := now\<rparr>))"
    using ro by (simp add: Tick_def Let_def)
  also have "\<dots> = adjusted_arrival (?s\<lparr>epoch_current := now\<rparr>)"
    by (simp add: rollover_def Let_def)
  finally show "rate_arriving_adjusted (fst (Tick oor now n ?s)) = 262144000"
    using adj by simp
qed

theorem constructor_preloads_arrival_witness:
  "(1 :: u64) \<noteq> 0 \<and>
   rate_arriving_adjusted (fst (Tick oor_zero 1 0 fresh)) = 262144000"
  using constructor_preloads_arrival [of 0 0 0 0 1 oor_zero 0] by (simp add: fresh_def)

subsection \<open>C2: the writing rate can be 0\<close>

text \<open>
  Claim C2 states that \<^verbatim>\<open>GetWritingRate()\<close> is strictly positive for every reachable
  history, also after \<^verbatim>\<open>WriteEnd(0)\<close>.  It is not: the default of 1 MiB/s covers the
  empty history only, and a history whose samples sum to less than their number has
  mean 0.  After one write of 0 bytes the estimator reports 0.
\<close>

theorem writing_rate_zero_counterexample:
  "GetWritingRate after_empty_write = 0"
  by code_simp

text \<open>
  Claim C2, amended.  In a reachable state \<^verbatim>\<open>GetWritingRate()\<close> is strictly positive
  exactly when the history is empty, where it returns 1,048,576 (1 MiB/s), or the sum
  of the stored samples (as the code accumulates it, modulo \<open>2^64\<close>) is at least the
  number of samples; otherwise, for a non-empty history whose sum is below the number of
  samples, it returns 0.
\<close>

theorem writing_rate_positive_iff:
  assumes "reachable s"
  shows "(0 < GetWritingRate s) =
           (rates s = [] \<or> of_nat (length (rates s)) \<le> foldl (+) 0 (rates s)) \<and>
         (rates s = [] \<longrightarrow> GetWritingRate s = 1048576) \<and>
         (rates s \<noteq> [] \<and> foldl (+) 0 (rates s) < of_nat (length (rates s)) \<longrightarrow>
            GetWritingRate s = 0)"
proof (intro conjI impI)
  have len: "length (rates s) \<le> 10" using assms by (rule reachable_length)
  show iff: "(0 < GetWritingRate s) =
           (rates s = [] \<or> of_nat (length (rates s)) \<le> foldl (+) 0 (rates s))"
    using len by (rule GetWritingRate_positive_iff)
  show "GetWritingRate s = 1048576" if "rates s = []"
    using that by (simp add: GetWritingRate_def)
  show "GetWritingRate s = 0"
    if z: "rates s \<noteq> [] \<and> foldl (+) 0 (rates s) < of_nat (length (rates s))"
  proof -
    from z have "\<not> (rates s = [] \<or> of_nat (length (rates s)) \<le> foldl (+) 0 (rates s))"
      by (simp add: not_le)
    with iff have "\<not> 0 < GetWritingRate s" by simp
    then show ?thesis by (simp add: word_greater_zero_iff)
  qed
qed

text \<open>The witness takes four reachable states through the theorem: the fresh limiter
  (empty history, 1,048,576), the history holding the single sample 7 and the one after
  \<^verbatim>\<open>WriteEnd(1000000)\<close> 500 ms after \<^verbatim>\<open>WriteStart()\<close> (both positive), and the one
  after \<^verbatim>\<open>WriteEnd(0)\<close> (rate 0).\<close>

theorem writing_rate_positive_iff_witness:
  "reachable fresh \<and> rates fresh = [] \<and> GetWritingRate fresh = 1048576 \<and>
   reachable (StoreWritingRate 7 fresh) \<and> rates (StoreWritingRate 7 fresh) = [7] \<and>
   0 < GetWritingRate (StoreWritingRate 7 fresh) \<and>
   reachable write_1000000_bytes_in_500_ms \<and>
   rates write_1000000_bytes_in_500_ms = [2000000] \<and>
   0 < GetWritingRate write_1000000_bytes_in_500_ms \<and>
   reachable after_empty_write \<and> rates after_empty_write = [0] \<and>
   GetWritingRate after_empty_write = 0"
proof -
  have r0: "reachable fresh" by (rule reachable_fresh)
  have h0: "rates fresh = []" by (simp add: fresh_def RateLimiter_def)
  from writing_rate_positive_iff [OF r0] h0
  have g0: "GetWritingRate fresh = 1048576" by blast
  have r7: "reachable (StoreWritingRate 7 fresh)" by (rule r_store [OF reachable_fresh])
  have h7: "rates (StoreWritingRate 7 fresh) = [7]"
    by (simp add: rates_StoreWritingRate h0)
  have s7: "(of_nat (length [7 :: u64]) :: u64) \<le> foldl (+) 0 [7]" by simp
  from writing_rate_positive_iff [OF r7] s7
  have g7: "0 < GetWritingRate (StoreWritingRate 7 fresh)" unfolding h7 by blast
  have rw: "reachable write_1000000_bytes_in_500_ms"
    unfolding write_1000000_bytes_in_500_ms_def
    by (rule r_write_end [OF r_write_start [OF reachable_fresh]])
  have hw: "rates write_1000000_bytes_in_500_ms = [2000000]" by code_simp
  have sw: "(of_nat (length [2000000 :: u64]) :: u64) \<le> foldl (+) 0 [2000000]" by simp
  from writing_rate_positive_iff [OF rw] sw
  have gw: "0 < GetWritingRate write_1000000_bytes_in_500_ms" unfolding hw by blast
  have re: "reachable after_empty_write"
    unfolding after_empty_write_def
    by (rule r_write_end [OF r_write_start [OF reachable_fresh]])
  have he: "rates after_empty_write = [0]" by code_simp
  have se: "[0 :: u64] \<noteq> [] \<and> foldl (+) 0 [0 :: u64] < of_nat (length [0 :: u64])" by simp
  from writing_rate_positive_iff [OF re] se
  have ge: "GetWritingRate after_empty_write = 0" unfolding he by blast
  from r0 h0 g0 r7 h7 g7 rw hw gw re he ge show ?thesis by blast
qed

subsection \<open>C5: the value of the writing rate\<close>

text \<open>
  Claim C5 states that for a non-empty history \<^verbatim>\<open>GetWritingRate()\<close> returns the
  arithmetic mean of the stored samples (or the ceiling).  The code adds the samples in
  a \<^verbatim>\<open>uint64_t\<close>, so the sum wraps: after two samples of \<open>2^63\<close>, with no ceiling,
  it returns 0 while the mean of the samples is \<open>2^63\<close>.
\<close>

theorem writing_rate_mean_counterexample:
  "rates after_two_huge_writes = [9223372036854775808, 9223372036854775808] \<and>
   rate_limit after_two_huge_writes = 0 \<and>
   sum_list (map uint (rates after_two_huge_writes))
     div int (length (rates after_two_huge_writes)) = 9223372036854775808 \<and>
   GetWritingRate after_two_huge_writes = 0"
  by code_simp

text \<open>
  Claim C5, amended.  \<^verbatim>\<open>GetWritingRate()\<close> returns exactly 1,048,576 when the history
  is empty.  When the history is non-empty (and holds at most 10 samples, as every
  reachable one does) it returns the integer quotient of the sum of the samples, taken
  modulo \<open>2^64\<close>, by their number, that is the mean rounded down whenever the sum is
  below \<open>2^64\<close>; except that if the ceiling is nonzero and lower than that quotient, it
  returns the ceiling exactly.
\<close>

theorem writing_rate_value:
  "(rates s = [] \<longrightarrow> GetWritingRate s = 1048576) \<and>
   (rates s \<noteq> [] \<and> length (rates s) \<le> 10 \<longrightarrow>
      uint (GetWritingRate s) =
        (let m = (sum_list (map uint (rates s)) mod 2 ^ 64) div int (length (rates s))
         in if 0 < uint (rate_limit s) \<and> uint (rate_limit s) < m
            then uint (rate_limit s) else m))"
proof (intro conjI impI)
  assume "rates s = []"
  then show "GetWritingRate s = 1048576" by (simp add: GetWritingRate_def)
next
  assume "rates s \<noteq> [] \<and> length (rates s) \<le> 10"
  then show "uint (GetWritingRate s) =
        (let m = (sum_list (map uint (rates s)) mod 2 ^ 64) div int (length (rates s))
         in if 0 < uint (rate_limit s) \<and> uint (rate_limit s) < m
            then uint (rate_limit s) else m)"
    by (intro GetWritingRate_nonempty) simp_all
qed

text \<open>The witness: a ceiling of 1,500,000 under samples 2,000,000 and 3,000,001 (mean
  2,500,000, rounded down) returns the ceiling; the empty history returns 1,048,576.\<close>

theorem writing_rate_value_witness:
  "rates fresh = [] \<and> GetWritingRate fresh = 1048576 \<and>
   rates (store_all [2000000, 3000001] (RateLimiter 1500000 0 0 0)) \<noteq> [] \<and>
   length (rates (store_all [2000000, 3000001] (RateLimiter 1500000 0 0 0))) \<le> 10 \<and>
   uint (GetWritingRate (store_all [2000000, 3000001] (RateLimiter 1500000 0 0 0))) = 1500000 \<and>
   uint (GetWritingRate (store_all [2000000, 3000001] fresh)) = 2500000"
proof -
  have e: "rates fresh = []" by (simp add: fresh_def RateLimiter_def)
  have r1: "rates (store_all [2000000, 3000001] (RateLimiter 1500000 0 0 0)) =
            [2000000, 3000001]"
    by (simp add: rates_StoreWritingRate RateLimiter_def)
  have l1: "rate_limit (store_all [2000000, 3000001] (RateLimiter 1500000 0 0 0)) = 1500000"
    by (simp add: StoreWritingRate_def RateLimiter_def)
  have r2: "rates (store_all [2000000, 3000001] fresh) = [2000000, 3000001]"
    by (simp add: rates_StoreWritingRate fresh_def RateLimiter_def)
  have l2: "rate_limit (store_all [2000000, 3000001] fresh) = 0"
    by (simp add: StoreWritingRate_def fresh_def RateLimiter_def)
  show ?thesis
    using e r1 l1 r2 l2
      writing_rate_value [of fresh]
      writing_rate_value [of "store_all [2000000, 3000001] (RateLimiter 1500000 0 0 0)"]
      writing_rate_value [of "store_all [2000000, 3000001] fresh"]
    by simp
qed

subsection \<open>C9: Tick(0)\<close>

text \<open>
  Claim C9 states that \<^verbatim>\<open>Tick(0)\<close> never changes the coefficient.  It does whenever
  the call falls on an epoch rollover, because the controller runs at every rollover
  whatever the byte count: the first \<^verbatim>\<open>Tick(0)\<close> on a fresh limiter, at clock
  reading 1, moves the coefficient from 5 to 4.
\<close>

theorem tick_zero_counterexample:
  "bytes_per_microsecond fresh = 5 \<and>
   bytes_per_microsecond (fst (Tick oor_zero 1 0 fresh)) = 4"
  by code_simp

text \<open>
  Claim C9, amended.  A call \<^verbatim>\<open>Tick(0)\<close> never sleeps (the computed sleep is 0 and
  nothing is added to \<^verbatim>\<open>duration_slept_\<close>).  When the sampled second equals
  \<^verbatim>\<open>epoch_last_\<close> it changes nothing but \<^verbatim>\<open>epoch_current_\<close>, so the coefficient
  stays.  When the sampled second differs from \<^verbatim>\<open>epoch_last_\<close> it does exactly the
  epoch rollover: the resets, the update of \<^verbatim>\<open>epoch_last_\<close>, and the controller's
  adjustment of the coefficient.
\<close>

theorem tick_zero_frame:
  "snd (Tick oor now 0 s) = 0 \<and>
   (now = epoch_last s \<longrightarrow>
      fst (Tick oor now 0 s) = s\<lparr>epoch_current := now\<rparr> \<and>
      bytes_per_microsecond (fst (Tick oor now 0 s)) = bytes_per_microsecond s \<and>
      duration_slept (fst (Tick oor now 0 s)) = duration_slept s) \<and>
   (now \<noteq> epoch_last s \<longrightarrow>
      fst (Tick oor now 0 s) = rollover oor (s\<lparr>epoch_current := now\<rparr>) \<and>
      duration_slept (fst (Tick oor now 0 s)) = 0 \<and>
      rate_arriving (fst (Tick oor now 0 s)) = 0 \<and>
      epoch_last (fst (Tick oor now 0 s)) = now)"
proof (intro conjI impI)
  show "snd (Tick oor now 0 s) = 0"
    by (simp add: Tick_sleep sleep_microseconds_def)
next
  assume same: "now = epoch_last s"
  then show st: "fst (Tick oor now 0 s) = s\<lparr>epoch_current := now\<rparr>"
    by (simp add: Tick_def Let_def sleep_microseconds_def)
  show "bytes_per_microsecond (fst (Tick oor now 0 s)) = bytes_per_microsecond s"
    unfolding st by simp
  show "duration_slept (fst (Tick oor now 0 s)) = duration_slept s"
    unfolding st by simp
next
  assume diff: "now \<noteq> epoch_last s"
  then show st: "fst (Tick oor now 0 s) = rollover oor (s\<lparr>epoch_current := now\<rparr>)"
    by (simp add: Tick_def Let_def sleep_microseconds_def)
  show "duration_slept (fst (Tick oor now 0 s)) = 0"
    unfolding st by (simp add: rollover_def Let_def)
  show "rate_arriving (fst (Tick oor now 0 s)) = 0"
    unfolding st by (simp add: rollover_def Let_def)
  show "epoch_last (fst (Tick oor now 0 s)) = now"
    unfolding st by (simp add: rollover_def Let_def)
qed

theorem tick_zero_frame_witness:
  "(0 :: u64) = epoch_last fresh \<and> (1 :: u64) \<noteq> epoch_last fresh \<and>
   snd (Tick oor_zero 0 0 fresh) = 0 \<and>
   bytes_per_microsecond (fst (Tick oor_zero 0 0 fresh)) = 5 \<and>
   duration_slept (fst (Tick oor_zero 1 0 fresh)) = 0 \<and>
   epoch_last (fst (Tick oor_zero 1 0 fresh)) = 1"
proof -
  have a: "(0 :: u64) = epoch_last fresh" by (simp add: fresh_def RateLimiter_def)
  have b: "(1 :: u64) \<noteq> epoch_last fresh" by (simp add: fresh_def RateLimiter_def)
  have c: "bytes_per_microsecond fresh = 5" by (simp add: fresh_def RateLimiter_def)
  from tick_zero_frame [of oor_zero 0 fresh] a
  have t0: "snd (Tick oor_zero 0 0 fresh) = 0 \<and>
            bytes_per_microsecond (fst (Tick oor_zero 0 0 fresh)) = bytes_per_microsecond fresh"
    by blast
  from tick_zero_frame [of oor_zero 1 fresh] b
  have t1: "duration_slept (fst (Tick oor_zero 1 0 fresh)) = 0 \<and>
            epoch_last (fst (Tick oor_zero 1 0 fresh)) = 1"
    by blast
  show ?thesis using a b c t0 t1 by simp
qed

subsection \<open>C8: sustained overload\<close>

text \<open>
  Claim C8.  At an epoch rollover in a reachable state at which the adjusted arrival
  rate exceeds 1.5 times the reported writing rate, the product \<open>m\<close> that the controller
  computes is strictly below the old coefficient, and the new coefficient is \<open>m\<close> unless
  the floor bump engages (\<open>m \<le> 5\<close>, then \<open>m + 1\<close>).  So under sustained overload the
  coefficient is strictly smaller after each rollover than before it, until the bump
  engages.  The factor in force is 0.75 whenever the adjusted arrival rate is below
  \<open>2^52\<close>.
\<close>

theorem sustained_overload_decreases:
  assumes r: "reachable s"
      and ro: "now \<noteq> epoch_last s"
      and ov: "3 * uint (GetWritingRate s) < 2 * uint (adjusted_arrival s)"
  shows "let k = band_factor (adjusted_arrival s) (GetWritingRate s);
             m = mul_assign oor (bytes_per_microsecond s) k;
             c' = bytes_per_microsecond (fst (Tick oor now n s))
         in c' = bump m \<and> m < bytes_per_microsecond s \<and>
            (5 < m \<longrightarrow> c' < bytes_per_microsecond s) \<and>
            (uint (adjusted_arrival s) < 2 ^ 52 \<longrightarrow> k = Finite (3 / 4))"
proof -
  let ?k = "band_factor (adjusted_arrival s) (GetWritingRate s)"
  let ?m = "mul_assign oor (bytes_per_microsecond s) ?k"
  have wa: "GetWritingRate s < adjusted_arrival s"
    unfolding word_less_def using ov uint_ge_0 [of "adjusted_arrival s"] by linarith
  have c: "1 \<le> bytes_per_microsecond s" using r by (rule reachable_coeff)
  have new: "bytes_per_microsecond (fst (Tick oor now n s)) = bump ?m"
    using ro by (rule Tick_rollover_coeff)
  have lt: "?m < bytes_per_microsecond s"
    using wa c by (rule mul_assign_overload_lt)
  have dec: "5 < ?m \<longrightarrow> bump ?m < bytes_per_microsecond s"
    using lt by (simp add: bump_def not_le [symmetric])
  have band: "uint (adjusted_arrival s) < 2 ^ 52 \<longrightarrow> ?k = Finite (3 / 4)"
    using ov by (auto intro: band_factor_three_quarters)
  show ?thesis
    unfolding Let_def new using lt dec band by blast
qed

theorem sustained_overload_decreases_witness:
  "reachable after_ramp_up \<and> 6 \<noteq> epoch_last after_ramp_up \<and>
   3 * uint (GetWritingRate after_ramp_up) < 2 * uint (adjusted_arrival after_ramp_up) \<and>
   uint (adjusted_arrival after_ramp_up) < 2 ^ 52 \<and>
   bytes_per_microsecond after_ramp_up = 10 \<and>
   mul_assign oor_zero 10 (Finite (3 / 4)) = 7 \<and>
   bytes_per_microsecond (fst (Tick oor_zero 6 0 after_ramp_up)) = bump 7 \<and>
   bytes_per_microsecond (fst (Tick oor_zero 6 0 after_ramp_up)) < 10"
proof -
  have r: "reachable after_ramp_up"
    unfolding after_ramp_up_def by (rule reachable_run_ticks [OF reachable_fresh])
  have ro: "6 \<noteq> epoch_last after_ramp_up" unfolding after_ramp_up_eq by simp
  have ov: "3 * uint (GetWritingRate after_ramp_up) < 2 * uint (adjusted_arrival after_ramp_up)"
    unfolding after_ramp_up_eq by code_simp
  have sm: "uint (adjusted_arrival after_ramp_up) < 2 ^ 52"
    unfolding after_ramp_up_eq by code_simp
  have c: "bytes_per_microsecond after_ramp_up = 10" unfolding after_ramp_up_eq by simp
  have m: "mul_assign oor_zero 10 (Finite (3 / 4)) = 7" by code_simp
  have five: "(5 :: u64) < 7" by simp
  note t = sustained_overload_decreases [OF r ro ov, of oor_zero 0, unfolded Let_def]
  from t sm
  have k: "band_factor (adjusted_arrival after_ramp_up) (GetWritingRate after_ramp_up) =
           Finite (3 / 4)"
    by blast
  from t have "bytes_per_microsecond (fst (Tick oor_zero 6 0 after_ramp_up)) =
      bump (mul_assign oor_zero (bytes_per_microsecond after_ramp_up)
              (band_factor (adjusted_arrival after_ramp_up) (GetWritingRate after_ramp_up)))"
    by blast
  then have new: "bytes_per_microsecond (fst (Tick oor_zero 6 0 after_ramp_up)) = bump 7"
    by (simp only: k c m)
  from t have "5 < mul_assign oor_zero (bytes_per_microsecond after_ramp_up)
              (band_factor (adjusted_arrival after_ramp_up) (GetWritingRate after_ramp_up)) \<longrightarrow>
      bytes_per_microsecond (fst (Tick oor_zero 6 0 after_ramp_up)) <
      bytes_per_microsecond after_ramp_up"
    by blast
  then have "(5 :: u64) < 7 \<longrightarrow> bytes_per_microsecond (fst (Tick oor_zero 6 0 after_ramp_up)) < 10"
    by (simp only: k c m)
  with five have lt: "bytes_per_microsecond (fst (Tick oor_zero 6 0 after_ramp_up)) < 10"
    by blast
  from r ro ov sm c m new lt show ?thesis by blast
qed

subsection \<open>C4: the controller's adjustment\<close>

text \<open>
  Claim C4 states that at a rollover the coefficient is multiplied by the band factor
  and the product truncated to an integer, then bumped.  The source multiplies in
  binary64, where the factor 1.005 is the double just below 201/200: at coefficient 200,
  with ratio 1,000,000 / 1,048,576 (band 0.95 to 1.00), the double product is
  200.99999999999997 and the new coefficient is 200, while the claim gives
  floor(200 * 1.005) = 201.  The state is reached by 21 calls of \<^verbatim>\<open>Tick\<close>.
\<close>

theorem controller_product_counterexample:
  "bytes_per_microsecond at_200 = 200 \<and> adjusted_arrival at_200 = 1000000 \<and>
   GetWritingRate at_200 = 1048576 \<and>
   claimed_coefficient 200 (1000000 / 1048576) = 201 \<and>
   bytes_per_microsecond (fst (Tick oor_zero 22 0 at_200)) = 200"
  unfolding at_200_eq by code_simp

text \<open>
  Claim C4, amended.  At each epoch rollover the new coefficient is \<open>bump m\<close>, where
  \<open>m\<close> is the binary64 product of the coefficient and the band factor, converted back
  to \<^verbatim>\<open>uint64_t\<close>.  When the target rate is not 0 and target rate, adjusted arrival
  rate and coefficient are below \<open>2^40\<close>, the band factor is the double nearest to the
  factor that the table of the claim gives for the exact ratio, and \<open>m\<close> is the floor
  of the exact product of coefficient and factor, or one less than it when that product
  is an integer; for the factors 0.75 and 1.25 it is always the floor.  Then 1 is added
  if \<open>m \<le> 5\<close>.  From coefficient 5 with ratio 1.6 the result is 4 (the witness).
\<close>

theorem controller_adjustment:
  "(now \<noteq> epoch_last s \<longrightarrow>
      bytes_per_microsecond (fst (Tick oor now n s)) =
        bump (mul_assign oor (bytes_per_microsecond s)
                (band_factor (adjusted_arrival s) (GetWritingRate s)))) \<and>
   (0 < GetWritingRate s \<and> uint (GetWritingRate s) < 2 ^ 40 \<and>
    uint (adjusted_arrival s) < 2 ^ 40 \<and> uint (bytes_per_microsecond s) < 2 ^ 40 \<longrightarrow>
      (let k = claimed_band_factor
                 (of_int (uint (adjusted_arrival s)) / of_int (uint (GetWritingRate s)));
           y = of_int (uint (bytes_per_microsecond s)) * k;
           m = mul_assign oor (bytes_per_microsecond s) (dbl k)
       in band_factor (adjusted_arrival s) (GetWritingRate s) = dbl k \<and>
          (uint m = \<lfloor>y\<rfloor> \<or> (y = of_int \<lfloor>y\<rfloor> \<and> uint m = \<lfloor>y\<rfloor> - 1)) \<and>
          (k = 3 / 4 \<or> k = 5 / 4 \<longrightarrow> uint m = \<lfloor>y\<rfloor>)))"
proof (intro conjI impI)
  assume "now \<noteq> epoch_last s"
  then show "bytes_per_microsecond (fst (Tick oor now n s)) =
        bump (mul_assign oor (bytes_per_microsecond s)
                (band_factor (adjusted_arrival s) (GetWritingRate s)))"
    by (rule Tick_rollover_coeff)
next
  assume h: "0 < GetWritingRate s \<and> uint (GetWritingRate s) < 2 ^ 40 \<and>
    uint (adjusted_arrival s) < 2 ^ 40 \<and> uint (bytes_per_microsecond s) < 2 ^ 40"
  then have w0: "0 < uint (GetWritingRate s)" by (simp add: word_less_def)
  from h have b: "band_factor (adjusted_arrival s) (GetWritingRate s) =
      dbl (claimed_band_factor
             (of_int (uint (adjusted_arrival s)) / of_int (uint (GetWritingRate s))))"
    by (intro band_factor_exact w0) simp_all
  from h have c: "uint (bytes_per_microsecond s) < 2 ^ 40" by simp
  from b mul_assign_claimed [OF c, where oor = oor and
      r = "of_int (uint (adjusted_arrival s)) / of_int (uint (GetWritingRate s))"]
  show "let k = claimed_band_factor
                 (of_int (uint (adjusted_arrival s)) / of_int (uint (GetWritingRate s)));
           y = of_int (uint (bytes_per_microsecond s)) * k;
           m = mul_assign oor (bytes_per_microsecond s) (dbl k)
       in band_factor (adjusted_arrival s) (GetWritingRate s) = dbl k \<and>
          (uint m = \<lfloor>y\<rfloor> \<or> (y = of_int \<lfloor>y\<rfloor> \<and> uint m = \<lfloor>y\<rfloor> - 1)) \<and>
          (k = 3 / 4 \<or> k = 5 / 4 \<longrightarrow> uint m = \<lfloor>y\<rfloor>)"
    unfolding Let_def by (intro conjI) blast+
qed

theorem controller_adjustment_witness:
  "(1 :: u64) \<noteq> epoch_last ratio_1_6 \<and>
   0 < GetWritingRate ratio_1_6 \<and> uint (GetWritingRate ratio_1_6) < 2 ^ 40 \<and>
   uint (adjusted_arrival ratio_1_6) < 2 ^ 40 \<and>
   uint (bytes_per_microsecond ratio_1_6) < 2 ^ 40 \<and>
   bytes_per_microsecond ratio_1_6 = 5 \<and>
   (of_int (uint (adjusted_arrival ratio_1_6)) / of_int (uint (GetWritingRate ratio_1_6)) :: rat)
     = 16 / 10 \<and>
   claimed_band_factor (16 / 10) = 3 / 4 \<and>
   band_factor (adjusted_arrival ratio_1_6) (GetWritingRate ratio_1_6) = dbl (3 / 4) \<and>
   uint (mul_assign oor_zero 5 (dbl (3 / 4))) = 3 \<and>
   bytes_per_microsecond (fst (Tick oor_zero 1 0 ratio_1_6)) = 4"
proof -
  have ro: "(1 :: u64) \<noteq> epoch_last ratio_1_6" unfolding ratio_1_6_eq by simp
  have h: "0 < GetWritingRate ratio_1_6 \<and> uint (GetWritingRate ratio_1_6) < 2 ^ 40 \<and>
           uint (adjusted_arrival ratio_1_6) < 2 ^ 40 \<and>
           uint (bytes_per_microsecond ratio_1_6) < 2 ^ 40"
    unfolding ratio_1_6_eq by code_simp
  have c: "bytes_per_microsecond ratio_1_6 = 5" unfolding ratio_1_6_eq by simp
  have r: "(of_int (uint (adjusted_arrival ratio_1_6)) /
            of_int (uint (GetWritingRate ratio_1_6)) :: rat) = 16 / 10"
    unfolding ratio_1_6_eq by code_simp
  have k: "claimed_band_factor (16 / 10) = 3 / 4" by code_simp
  have fl: "\<lfloor>of_int (uint (5 :: u64)) * (3 / 4 :: rat)\<rfloor> = 3" by code_simp
  note t = controller_adjustment [where now = 1 and s = ratio_1_6 and oor = oor_zero and n = 0,
      unfolded Let_def r k c]
  from t ro have new: "bytes_per_microsecond (fst (Tick oor_zero 1 0 ratio_1_6)) =
      bump (mul_assign oor_zero 5
              (band_factor (adjusted_arrival ratio_1_6) (GetWritingRate ratio_1_6)))"
    by blast
  from t h [unfolded c]
  have b: "band_factor (adjusted_arrival ratio_1_6) (GetWritingRate ratio_1_6) = dbl (3 / 4)"
    and "uint (mul_assign oor_zero 5 (dbl (3 / 4))) = \<lfloor>of_int (uint (5 :: u64)) * (3 / 4 :: rat)\<rfloor>"
    by blast+
  then have m: "uint (mul_assign oor_zero 5 (dbl (3 / 4))) = 3" by (simp only: fl)
  then have "mul_assign oor_zero 5 (dbl (3 / 4)) = 3" by (simp add: word_uint_eq_iff)
  with new b have "bytes_per_microsecond (fst (Tick oor_zero 1 0 ratio_1_6)) = bump 3"
    by (simp only:)
  then have four: "bytes_per_microsecond (fst (Tick oor_zero 1 0 ratio_1_6)) = 4"
    by (simp add: bump_def)
  from ro h c r k b m four show ?thesis by blast
qed

subsection \<open>C7: the sample stored by WriteEnd\<close>

text \<open>
  Claim C7 states that for different time stamps \<^verbatim>\<open>WriteEnd\<close> stores the byte count
  divided by the elapsed seconds.  The source divides in binary64, twice: 17 ms are
  0.017 seconds, rounded to a double just above 17/1000, and 17 / 0.017 comes out as
  999.9999999999999; the stored sample is 999, while 17 bytes in 17 ms are exactly
  1000 bytes per second.
\<close>

theorem write_sample_counterexample:
  "epoch_write_start (WriteStart 1000 fresh) = 1000 \<and>
   rates write_17_bytes_in_17_ms = [999] \<and>
   claimed_write_sample 1000 1017 17 = 1000"
  by code_simp

text \<open>
  Claim C7, amended.  \<^verbatim>\<open>WriteEnd(bytesWritten)\<close> appends one sample to the history
  (evicting the oldest at capacity).  The sample is \<open>bytesWritten\<close> itself when the
  start and end millisecond time stamps are equal.  When the start is before the end,
  the end below \<open>2^53\<close> and \<open>bytesWritten\<close> below \<open>2^40\<close>, the sample is the floor of
  \<open>bytesWritten / ((end - start) / 1000)\<close>, or one less than it when that quotient is
  an integer.  \<^verbatim>\<open>WriteStart()\<close> followed 500 ms later by \<^verbatim>\<open>WriteEnd(1000000)\<close> stores
  2,000,000 (the witness).
\<close>

theorem write_end_sample:
  "rates (WriteEnd oor now_ms n s) =
     (if 10 \<le> length (rates s) then tl (rates s) else rates s) @
     [write_rate_sample oor (epoch_write_start s) now_ms n] \<and>
   (now_ms = epoch_write_start s \<longrightarrow>
      write_rate_sample oor (epoch_write_start s) now_ms n = n) \<and>
   (uint (epoch_write_start s) < uint now_ms \<and> uint now_ms < 2 ^ 53 \<and> uint n < 2 ^ 40 \<longrightarrow>
      (let q = (of_int (uint n) /
                  ((of_int (uint now_ms) - of_int (uint (epoch_write_start s))) / 1000) :: rat);
           m = uint (write_rate_sample oor (epoch_write_start s) now_ms n)
       in m = \<lfloor>q\<rfloor> \<or> (q = of_int \<lfloor>q\<rfloor> \<and> m = \<lfloor>q\<rfloor> - 1)))"
proof (intro conjI impI)
  show "rates (WriteEnd oor now_ms n s) =
     (if 10 \<le> length (rates s) then tl (rates s) else rates s) @
     [write_rate_sample oor (epoch_write_start s) now_ms n]"
    by (rule rates_WriteEnd)
next
  assume "now_ms = epoch_write_start s"
  then show "write_rate_sample oor (epoch_write_start s) now_ms n = n"
    by (simp add: write_rate_sample_def)
next
  let ?st = "epoch_write_start s"
  let ?d = "uint now_ms - uint ?st" and ?Y = "1000 * uint n"
  assume h: "uint ?st < uint now_ms \<and> uint now_ms < 2 ^ 53 \<and> uint n < 2 ^ 40"
  then have se: "uint ?st < uint now_ms" and e53: "uint now_ms < 2 ^ 53"
    and n40: "uint n < 2 ^ 40" by simp_all
  have q: "(of_int (uint n) / ((of_int (uint now_ms) - of_int (uint ?st)) / 1000) :: rat) =
           of_int ?Y / of_int ?d"
    by (rule exact_quotient)
  have fl: "\<lfloor>of_int ?Y / (of_int ?d :: rat)\<rfloor> = ?Y div ?d"
    by (rule floor_divide_of_int_eq)
  have int: "(of_int ?Y / (of_int ?d :: rat)) = of_int (?Y div ?d)" if "?Y mod ?d = 0"
  proof -
    from that have "?d dvd ?Y" by (simp only: mod_eq_0_iff_dvd)
    then show ?thesis by (simp only: of_int_div)
  qed
  from write_rate_sample_near_exact [OF se e53 n40, of oor]
  show "let q = (of_int (uint n) /
                  ((of_int (uint now_ms) - of_int (uint ?st)) / 1000) :: rat);
           m = uint (write_rate_sample oor ?st now_ms n)
       in m = \<lfloor>q\<rfloor> \<or> (q = of_int \<lfloor>q\<rfloor> \<and> m = \<lfloor>q\<rfloor> - 1)"
    unfolding Let_def q fl using int by auto
qed

theorem write_end_sample_witness:
  "uint (epoch_write_start (WriteStart 1000 fresh)) < uint (1500 :: u64) \<and>
   uint (1500 :: u64) < 2 ^ 53 \<and> uint (1000000 :: u64) < 2 ^ 40 \<and>
   rates write_1000000_bytes_in_500_ms =
     [write_rate_sample oor_zero 1000 1500 1000000] \<and>
   write_rate_sample oor_zero 1000 1500 1000000 = 2000000 \<and>
   write_rate_sample oor_zero 1000 1000 1000000 = 1000000"
proof -
  have st: "epoch_write_start (WriteStart 1000 fresh) = 1000" by (simp add: WriteStart_def)
  have em: "rates (WriteStart 1000 fresh) = []"
    by (simp add: WriteStart_def fresh_def RateLimiter_def)
  have h: "uint (epoch_write_start (WriteStart 1000 fresh)) < uint (1500 :: u64) \<and>
           uint (1500 :: u64) < 2 ^ 53 \<and> uint (1000000 :: u64) < 2 ^ 40"
    unfolding st by simp
  have v: "write_rate_sample oor_zero 1000 1500 1000000 = 2000000" by code_simp
  note t1 = write_end_sample [where oor = oor_zero and now_ms = 1500 and n = 1000000
      and s = "WriteStart 1000 fresh", unfolded st]
  note t2 = write_end_sample [where oor = oor_zero and now_ms = 1000 and n = 1000000
      and s = "WriteStart 1000 fresh", unfolded st]
  from t1 em have r: "rates write_1000000_bytes_in_500_ms =
      [write_rate_sample oor_zero 1000 1500 1000000]"
    unfolding write_1000000_bytes_in_500_ms_def by simp
  from t2 have same: "write_rate_sample oor_zero 1000 1000 1000000 = 1000000" by blast
  from h r v same show ?thesis by blast
qed

end
